theory Spec2Isabelle
  imports Main "HOL-Library.Word"
begin

section \<open>Kernel timing: \<open>earliest_event_start\<close>, \<open>latest_event_end\<close>, \<open>measure_duration\<close>\<close>

text \<open>
  A \<open>sycl::event\<close> is seen by this code only through its two profiling queries,
  \<open>command_start\<close> and \<open>command_end\<close>, both \<open>uint64_t\<close> nanosecond counters.
\<close>

type_synonym uint64_t = "64 word"

record event =
  command_start :: uint64_t
  command_end :: uint64_t

definition UINT64_MAX :: uint64_t where
  "UINT64_MAX = 18446744073709551615"

text \<open>
  \<open>earliest_event_start\<close> and \<open>latest_event_end\<close> are overloaded for one event and
  for a vector of events; an argument of \<open>measure_duration\<close> is one or the other.
\<close>

datatype events = Event event | Events "event list"

text \<open>The loop \<open>for (auto &evt : events) start = std::min(start, ...)\<close>.\<close>

fun earliest_event_start_loop :: "uint64_t \<Rightarrow> event list \<Rightarrow> uint64_t" where
  "earliest_event_start_loop start [] = start"
| "earliest_event_start_loop start (evt # evts) =
     earliest_event_start_loop (min start (command_start evt)) evts"

fun earliest_event_start :: "events \<Rightarrow> uint64_t" where
  "earliest_event_start (Event evt) = command_start evt"
| "earliest_event_start (Events evts) = earliest_event_start_loop UINT64_MAX evts"

fun latest_event_end_loop :: "uint64_t \<Rightarrow> event list \<Rightarrow> uint64_t" where
  "latest_event_end_loop end' [] = end'"
| "latest_event_end_loop end' (evt # evts) =
     latest_event_end_loop (max end' (command_end evt)) evts"

fun latest_event_end :: "events \<Rightarrow> uint64_t" where
  "latest_event_end (Event evt) = command_end evt"
| "latest_event_end (Events evts) = latest_event_end_loop 0 evts"

text \<open>
  \<open>kernel_duration\<close> is declared in \<open>gpu_common.hh\<close>; the only thing done with it here
  is to build it from the \<open>uint64_t\<close> difference and to read its \<open>count()\<close>, scaled
  by \<open>1e-6\<close> to milliseconds, so it is the nanosecond count itself.
\<close>

type_synonym kernel_duration = uint64_t

text \<open>
  \<open>std::min\<close> and \<open>std::max\<close> over the initializer list of the pack expansion. The
  pack has at least one element wherever the function is instantiated.
\<close>

fun min_list_u64 :: "uint64_t \<Rightarrow> uint64_t list \<Rightarrow> uint64_t" where
  "min_list_u64 m [] = m"
| "min_list_u64 m (x # xs) = min_list_u64 (min m x) xs"

fun max_list_u64 :: "uint64_t \<Rightarrow> uint64_t list \<Rightarrow> uint64_t" where
  "max_list_u64 m [] = m"
| "max_list_u64 m (x # xs) = max_list_u64 (max m x) xs"

definition measure_duration ::
    "events \<Rightarrow> events list \<Rightarrow> uint64_t \<times> uint64_t \<times> kernel_duration" where
  "measure_duration e es =
     (let early = min_list_u64 (earliest_event_start e) (map earliest_event_start es);
          late = max_list_u64 (latest_event_end e) (map latest_event_end es)
      in (early, late, late - early))"

section \<open>Submission wrapper: \<open>submit_and_profile\<close>\<close>

text \<open>
  The queue is modelled by what this code can observe of it: whether it was built with
  \<open>enable_profiling\<close>, the command groups submitted so far, in order, and the event
  the runtime hands back for a submitted command group. The process's standard output
  is the list of \<open>printf\<close> calls made, each kept as its arguments
  (\<open>early\<close>, \<open>late\<close>, \<open>label\<close>, \<open>duration.count()\<close>).
\<close>

record 'cgf queue =
  enable_profiling :: bool
  submitted :: "'cgf list"
  event_of :: "'cgf \<Rightarrow> event"

datatype profile_line = Profile_line uint64_t uint64_t string uint64_t

definition submit :: "'cgf queue \<Rightarrow> 'cgf \<Rightarrow> event \<times> 'cgf queue" where
  "submit q cgf = (event_of q cgf, q\<lparr>submitted := submitted q @ [cgf]\<rparr>)"

text \<open>
  \<open>verbose()\<close> is declared outside this file; its value is a parameter. The state is
  the queue and the output written so far.
\<close>

definition submit_and_profile ::
    "bool \<Rightarrow> 'cgf queue \<Rightarrow> profile_line list \<Rightarrow> string \<Rightarrow> 'cgf
       \<Rightarrow> event \<times> 'cgf queue \<times> profile_line list" where
  "submit_and_profile verbose q out label cgf =
     (if verbose \<and> enable_profiling q then
        (let (evt, q') = submit q cgf;
             (early, late, duration) = measure_duration (Event evt) [Event evt]
         in (evt, q', out @ [Profile_line early late label duration]))
      else
        (let (evt, q') = submit q cgf in (evt, q', out)))"

text \<open>A run of kernel submissions through the wrapper, in order.\<close>

fun submit_all ::
    "bool \<Rightarrow> 'cgf queue \<Rightarrow> profile_line list \<Rightarrow> (string \<times> 'cgf) list
       \<Rightarrow> event list \<times> 'cgf queue \<times> profile_line list" where
  "submit_all verbose q out [] = ([], q, out)"
| "submit_all verbose q out ((label, cgf) # rest) =
     (let (evt, q', out') = submit_and_profile verbose q out label cgf;
          (evts, q'', out'') = submit_all verbose q' out' rest
      in (evt # evts, q'', out''))"

section \<open>Constants and helpers of \<open>gpu_common.hh\<close>\<close>

text \<open>
  \<open>index_type\<close>, \<open>warp_size\<close>, \<open>hierarchical_inclusive_scan_granularity\<close>,
  \<open>div_ceil\<close> and \<open>ceil\<close> come from \<open>gpu_common.hh\<close>. The two constants are
  parameters of every definition below (\<open>warp_size\<close> and \<open>granularity\<close>). Index
  values are natural numbers: every index computed below is bounded by the range or the
  buffer size it is compared with.
\<close>

text \<open>
  Modelled from the spec: \<open>div_ceil\<close> of \<open>gpu_common.hh\<close>, which is not among the
  examined sources. It is the quotient rounded up, which the spec writes
  \<open>ceil(Range / warp_size)\<close> and \<open>ceil(N / G)\<close>.
\<close>

definition div_ceil :: "nat \<Rightarrow> nat \<Rightarrow> nat" where
  "div_ceil p q = (p + q - 1) div q"

text \<open>
  Modelled from the spec: \<open>ceil\<close> of \<open>gpu_common.hh\<close>, which is not among the
  examined sources. It is its first argument rounded up to a multiple of the second
  (the spec's "rounded up to a multiple of granularity", "round Range up to a full
  warp").
\<close>

definition ceil :: "nat \<Rightarrow> nat \<Rightarrow> nat" where
  "ceil x multiple = div_ceil x multiple * multiple"

section \<open>Work distribution: \<open>known_size_group::distribute_for\<close>\<close>

text \<open>
  The lambda that \<open>known_size_group::distribute_for\<close> hands to the group runs once on
  every lane of the group, with \<open>tid\<close> the lane's local id. A call of the callback
  through \<open>invoke_f\<close> is kept as the triple (item, iteration, lane): the logical item
  handle and the sub-group handle that the richer signatures receive are those of the
  calling lane. \<open>distribute_for LocalSize range' tid\<close> is the sequence of calls lane
  \<open>tid\<close> makes, in program order; the overload with a compile-time \<open>Range\<close> has the
  same body.
\<close>

type_synonym call = "nat \<times> nat \<times> nat"

definition distribute_for_partial_iteration :: "nat \<Rightarrow> nat \<Rightarrow> nat \<Rightarrow> call list" where
  "distribute_for_partial_iteration LocalSize range' tid =
     (let num_full_iterations = range' div LocalSize;
          partial_iteration_length = range' mod LocalSize
      in if tid < partial_iteration_length
         then (let iteration = num_full_iterations;
                   item = iteration * LocalSize + tid
               in [(item, iteration, tid)])
         else [])"

definition distribute_for :: "nat \<Rightarrow> nat \<Rightarrow> nat \<Rightarrow> call list" where
  "distribute_for LocalSize range' tid =
     (let num_full_iterations = range' div LocalSize
      in map (\<lambda>iteration. (iteration * LocalSize + tid, iteration, tid))
           [0..<num_full_iterations]
         @ distribute_for_partial_iteration LocalSize range' tid)"

text \<open>The calls of the whole group: those of lanes \<open>0 .. LocalSize - 1\<close>.\<close>

definition group_calls :: "nat \<Rightarrow> nat \<Rightarrow> call list" where
  "group_calls LocalSize range' = concat (map (distribute_for LocalSize range') [0..<LocalSize])"

section \<open>Scratch sizing: \<open>inclusive_scan_local_allocation\<close>\<close>

text \<open>
  \<open>inclusive_scan_local_allocation<Value, Range>\<close> is a type computed from \<open>Range\<close>:
  the empty struct, or, when \<open>Range > warp_size\<close>, an array \<open>memory\<close> of
  \<open>div_ceil(Range, warp_size)\<close> values and a member \<open>next\<close> of the type for that
  smaller range. The layout below keeps the element count of each \<open>memory\<close>; the
  element type plays no part in it. The instantiation recurses at compile time and need
  not end for every \<open>warp_size\<close>, so the result is optional.
\<close>

datatype allocation_layout = Empty_struct | Struct (memory_count: nat) (next_layout: allocation_layout)

partial_function (option) inclusive_scan_local_allocation ::
    "nat \<Rightarrow> nat \<Rightarrow> allocation_layout option" where
  "inclusive_scan_local_allocation warp_size Range' =
     (if Range' > warp_size
      then Option.bind (inclusive_scan_local_allocation warp_size (div_ceil Range' warp_size))
             (\<lambda>nxt. Some (Struct (div_ceil Range' warp_size) nxt))
      else Some Empty_struct)"

declare inclusive_scan_local_allocation.simps [code]

text \<open>
  The \<open>Range\<close> arguments of the nested instantiations, outermost first: the range of
  \<open>next\<close> is the element count of \<open>memory\<close>.
\<close>

fun level_ranges :: "nat \<Rightarrow> allocation_layout \<Rightarrow> nat list" where
  "level_ranges Range' Empty_struct = [Range']"
| "level_ranges Range' (Struct n nxt) = Range' # level_ranges n nxt"

section \<open>Buffer chain: \<open>hierarchical_inclusive_scan_allocate\<close>\<close>

text \<open>
  A \<open>sycl::buffer<Scalar>\<close> built from an element count has that many elements and
  no defined contents, so the chain is the list of the counts. The \<open>while\<close> loop need
  not end for every granularity; where it does not, and where the \<open>assert\<close> fails,
  no chain is returned.
\<close>

partial_function (option) hierarchical_inclusive_scan_allocate_loop ::
    "nat \<Rightarrow> nat \<Rightarrow> nat list \<Rightarrow> nat list option" where
  "hierarchical_inclusive_scan_allocate_loop granularity n_elems intermediate_bufs =
     (if n_elems > 1
      then hierarchical_inclusive_scan_allocate_loop granularity (div_ceil n_elems granularity)
             (intermediate_bufs @ [ceil (div_ceil n_elems granularity) granularity])
      else Some intermediate_bufs)"

declare hierarchical_inclusive_scan_allocate_loop.simps [code]

definition hierarchical_inclusive_scan_allocate :: "nat \<Rightarrow> nat \<Rightarrow> nat list option" where
  "hierarchical_inclusive_scan_allocate granularity in_out_buffer_size =
     (if in_out_buffer_size mod granularity = 0
      then hierarchical_inclusive_scan_allocate_loop granularity in_out_buffer_size []
      else None)"

text \<open>
  The spec's sequence of counts before rounding: \<open>N\<close>, then each time the previous
  count divided by the granularity, rounded up.
\<close>

fun unrounded_count :: "nat \<Rightarrow> nat \<Rightarrow> nat \<Rightarrow> nat" where
  "unrounded_count G N 0 = N"
| "unrounded_count G N (Suc k) = div_ceil (unrounded_count G N k) G"

section \<open>Group-local scan: \<open>inclusive_scan_over_group\<close>\<close>

text \<open>
  The naive sequential inclusive scan: the first output is the first input, and every
  later output is the previous output combined with the next input.
\<close>

fun scan_from :: "('a \<Rightarrow> 'a \<Rightarrow> 'a) \<Rightarrow> 'a \<Rightarrow> 'a list \<Rightarrow> 'a list" where
  "scan_from op a [] = []"
| "scan_from op a (x # xs) = op a x # scan_from op (op a x) xs"

fun naive_inclusive_scan :: "('a \<Rightarrow> 'a \<Rightarrow> 'a) \<Rightarrow> 'a list \<Rightarrow> 'a list" where
  "naive_inclusive_scan op [] = []"
| "naive_inclusive_scan op (x # xs) = x # scan_from op x xs"

text \<open>
  \<open>sycl::inclusive_scan_over_group(sg, x, op)\<close> is a collective of the SYCL library:
  the lanes of a sub-group call it together, each with its \<open>x\<close>, and each receives
  the combination of the values of the lanes up to and including itself, in lane order.
\<close>

definition sub_group_inclusive_scan :: "('a \<Rightarrow> 'a \<Rightarrow> 'a) \<Rightarrow> 'a list \<Rightarrow> 'a list" where
  "sub_group_inclusive_scan op xs = naive_inclusive_scan op xs"

text \<open>
  A sub-group is \<open>warp_size\<close> consecutive lanes. The lanes of a sub-group run in
  lockstep, so the \<open>k\<close>-th collective call of one lane meets the \<open>k\<close>-th call of the
  others: \<open>sub_group_round\<close> is the \<open>k\<close>-th callback call of every lane of sub-group
  \<open>s\<close> that makes one. Sub-groups do not wait for each other inside one
  \<open>distribute_for\<close>; the callbacks below touch, per call, only locations of their own
  item, and the model runs the rounds one after the other, sub-group by sub-group.
  A group of \<open>LocalSize\<close> lanes has \<open>LocalSize / warp_size\<close> sub-groups (the
  \<open>static_assert\<close> makes \<open>LocalSize\<close> a multiple of \<open>warp_size\<close>), and no lane makes
  more than \<open>range / LocalSize + 1\<close> calls.
\<close>

definition sub_group_round :: "nat \<Rightarrow> nat \<Rightarrow> nat \<Rightarrow> nat \<Rightarrow> nat \<Rightarrow> call list" where
  "sub_group_round warp_size LocalSize range' k s =
     concat (map (\<lambda>tid. let calls = distribute_for LocalSize range' tid
                         in if k < length calls then [calls ! k] else [])
               [s * warp_size ..< (s + 1) * warp_size])"

definition collective_rounds :: "nat \<Rightarrow> nat \<Rightarrow> nat \<Rightarrow> call list list" where
  "collective_rounds warp_size LocalSize range' =
     concat (map (\<lambda>k. map (sub_group_round warp_size LocalSize range' k)
                         [0..<LocalSize div warp_size])
               [0..<Suc (range' div LocalSize)])"

text \<open>Running a list of steps, each of which may fail.\<close>

definition fold_option :: "('x \<Rightarrow> 's \<Rightarrow> 's option) \<Rightarrow> 'x list \<Rightarrow> 's \<Rightarrow> 's option" where
  "fold_option f xs s = fold (\<lambda>x st. Option.bind st (f x)) xs (Some s)"

text \<open>
  Memory is a list of values; an access beyond its end is undefined behaviour in the
  source and \<open>None\<close> here. The local memory passed as
  \<open>inclusive_scan_local_allocation<Value, Range> &\<close> carries its contents.
\<close>

datatype 'a local_allocation =
  Empty_allocation | Allocation (memory: "'a list") (next_allocation: "'a local_allocation")

fun layout_of :: "'a local_allocation \<Rightarrow> allocation_layout" where
  "layout_of Empty_allocation = Empty_struct"
| "layout_of (Allocation m n) = Struct (length m) (layout_of n)"

text \<open>
  \<open>item < Range ? acc[item] : 0\<close>: the value a lane feeds into the sub-group scan.
  \<open>zero\<close> is the value the literal \<open>0\<close> has in the element type.
\<close>

definition read_or_zero :: "'a \<Rightarrow> nat \<Rightarrow> 'a list \<Rightarrow> call \<Rightarrow> 'a option" where
  "read_or_zero zero Range' acc c =
     (case c of (item, iteration, tid) \<Rightarrow>
        if item < Range' then (if item < length acc then Some (acc ! item) else None)
        else Some zero)"

text \<open>
  The callback of the base case (\<open>Range <= warp_size\<close>), for the lanes of one sub-group
  at once: \<open>a\<close> is read, the sub-group scans, \<open>if (item < Range) acc[item] = b\<close>.
\<close>

definition base_write :: "nat \<Rightarrow> call \<times> 'a \<Rightarrow> 'a list \<Rightarrow> 'a list option" where
  "base_write Range' cb acc =
     (case cb of ((item, iteration, tid), b) \<Rightarrow>
        if item < Range' then (if item < length acc then Some (acc[item := b]) else None)
        else Some acc)"

definition base_step ::
    "'a \<Rightarrow> ('a \<Rightarrow> 'a \<Rightarrow> 'a) \<Rightarrow> nat \<Rightarrow> call list \<Rightarrow> 'a list \<Rightarrow> 'a list option" where
  "base_step zero op Range' calls acc =
     (case those (map (read_or_zero zero Range' acc) calls) of
        None \<Rightarrow> None
      | Some as \<Rightarrow>
          fold_option (base_write Range') (zip calls (sub_group_inclusive_scan op as)) acc)"

text \<open>
  The first callback of the recursive case: \<open>fine[iteration]\<close> receives the lane's
  result of the sub-group scan, and the last lane of each warp stores it in
  \<open>coarse[item / warp_size]\<close>. \<open>fine\<close> is an array of
  \<open>div_ceil(Range, LocalSize)\<close> values private to each lane: the registers of all lanes
  are one partial map from (lane, iteration), undefined where nothing was stored.
\<close>

type_synonym 'a registers = "nat \<times> nat \<Rightarrow> 'a option"

definition fine_write ::
    "nat \<Rightarrow> nat \<Rightarrow> call \<times> 'a \<Rightarrow> 'a registers \<times> 'a list \<Rightarrow> ('a registers \<times> 'a list) option" where
  "fine_write warp_size fine_size cb st =
     (case cb of ((item, iteration, tid), b) \<Rightarrow>
      case st of (fine, coarse) \<Rightarrow>
        if iteration < fine_size then
          (let fine' = fine((tid, iteration) \<mapsto> b)
           in if item mod warp_size = warp_size - 1
              then (if item div warp_size < length coarse
                    then Some (fine', coarse[item div warp_size := b]) else None)
              else Some (fine', coarse))
        else None)"

definition fine_step ::
    "nat \<Rightarrow> 'a \<Rightarrow> ('a \<Rightarrow> 'a \<Rightarrow> 'a) \<Rightarrow> nat \<Rightarrow> nat \<Rightarrow> 'a list \<Rightarrow> call list
       \<Rightarrow> 'a registers \<times> 'a list \<Rightarrow> ('a registers \<times> 'a list) option" where
  "fine_step warp_size zero op Range' fine_size acc calls st =
     (case those (map (read_or_zero zero Range' acc) calls) of
        None \<Rightarrow> None
      | Some as \<Rightarrow>
          fold_option (fine_write warp_size fine_size)
            (zip calls (sub_group_inclusive_scan op as)) st)"

text \<open>
  The second callback of the recursive case:
  \<open>value = fine[iteration]; if (item >= warp_size) value = op(value, coarse[item / warp_size - 1]);
  acc[item] = value\<close>.
\<close>

definition carry_write ::
    "nat \<Rightarrow> ('a \<Rightarrow> 'a \<Rightarrow> 'a) \<Rightarrow> 'a registers \<Rightarrow> 'a list \<Rightarrow> call \<Rightarrow> 'a list \<Rightarrow> 'a list option" where
  "carry_write warp_size op fine coarse c acc =
     (case c of (item, iteration, tid) \<Rightarrow>
      case fine (tid, iteration) of
        None \<Rightarrow> None
      | Some v \<Rightarrow>
          Option.bind
            (if item \<ge> warp_size
             then (if item div warp_size - 1 < length coarse
                   then Some (op v (coarse ! (item div warp_size - 1))) else None)
             else Some v)
            (\<lambda>v'. if item < length acc then Some (acc[item := v']) else None))"

text \<open>
  The two overloads, chosen by \<open>Range <= warp_size\<close> and \<open>Range > warp_size\<close>; the
  type of the local memory is fixed by \<open>Range\<close>, so a local memory of another shape
  does not compile, and neither does a \<open>LocalSize\<close> that fails the
  \<open>static_assert\<close>. The accessor \<open>acc\<close> is the memory from the pointer passed on;
  it is returned updated, with the local memory.
\<close>

fun inclusive_scan_over_group ::
    "nat \<Rightarrow> 'a \<Rightarrow> nat \<Rightarrow> nat \<Rightarrow> 'a list \<Rightarrow> 'a local_allocation \<Rightarrow> ('a \<Rightarrow> 'a \<Rightarrow> 'a)
       \<Rightarrow> ('a list \<times> 'a local_allocation) option" where
  "inclusive_scan_over_group warp_size zero Range' LocalSize acc Empty_allocation op =
     (if Range' \<le> warp_size \<and> LocalSize mod warp_size = 0 then
        (case fold_option (base_step zero op Range')
                (collective_rounds warp_size LocalSize (ceil Range' warp_size)) acc of
           None \<Rightarrow> None
         | Some acc' \<Rightarrow> Some (acc', Empty_allocation))
      else None)"
| "inclusive_scan_over_group warp_size zero Range' LocalSize acc (Allocation coarse nxt) op =
     (if Range' > warp_size \<and> LocalSize mod warp_size = 0
         \<and> length coarse = div_ceil Range' warp_size then
        (case fold_option
                (fine_step warp_size zero op Range' (div_ceil Range' LocalSize) acc)
                (collective_rounds warp_size LocalSize (ceil Range' warp_size))
                (Map.empty, coarse) of
           None \<Rightarrow> None
         | Some (fine, coarse1) \<Rightarrow>
            (case inclusive_scan_over_group warp_size zero (div_ceil Range' warp_size)
                    LocalSize coarse1 nxt op of
               None \<Rightarrow> None
             | Some (coarse2, nxt') \<Rightarrow>
                (case fold_option (carry_write warp_size op fine coarse2)
                        (group_calls LocalSize Range') acc of
                   None \<Rightarrow> None
                 | Some acc' \<Rightarrow> Some (acc', Allocation coarse2 nxt'))))
      else None)"

section \<open>Hierarchical scan: \<open>hierarchical_inclusive_scan\<close>\<close>

definition local_size :: nat where
  "local_size = 256"

text \<open>
  One group of the reduction kernel: \<open>big\<close> points at
  \<open>big_acc[group_index * granularity]\<close>, the group scans \<open>granularity\<close> elements from
  there, and one lane stores \<open>big[granularity - 1]\<close> in \<open>small_acc[group_index]\<close>.
  \<open>lm\<close> is the group's local memory as it finds it.
\<close>

definition reduction_group ::
    "nat \<Rightarrow> 'a \<Rightarrow> nat \<Rightarrow> ('a \<Rightarrow> 'a \<Rightarrow> 'a) \<Rightarrow> 'a local_allocation \<Rightarrow> nat
       \<Rightarrow> 'a list \<times> 'a list \<Rightarrow> ('a list \<times> 'a list) option" where
  "reduction_group warp_size zero granularity op lm group_index accs =
     (case accs of (big_acc, small_acc) \<Rightarrow>
        if group_index * granularity < length big_acc \<and> group_index < length small_acc then
          (case inclusive_scan_over_group warp_size zero granularity local_size
                  (drop (group_index * granularity) big_acc) lm op of
             None \<Rightarrow> None
           | Some (big, lm') \<Rightarrow>
               if granularity - 1 < length big
               then Some (take (group_index * granularity) big_acc @ big,
                          small_acc[group_index := big ! (granularity - 1)])
               else None)
        else None)"

text \<open>
  One group of the expansion kernel: \<open>big\<close> points at
  \<open>big_acc[(group_index + 1) * granularity]\<close>, \<open>small\<close> is
  \<open>small_acc[group_index]\<close>, and \<open>distribute_for(granularity, grp, ...)\<close> runs
  \<open>big[i] = op(big[i], small)\<close>.
\<close>

definition expansion_write ::
    "nat \<Rightarrow> ('a \<Rightarrow> 'a \<Rightarrow> 'a) \<Rightarrow> 'a \<Rightarrow> call \<Rightarrow> 'a list \<Rightarrow> 'a list option" where
  "expansion_write base op small c big_acc =
     (case c of (i, iteration, tid) \<Rightarrow>
        if base + i < length big_acc
        then Some (big_acc[base + i := op (big_acc ! (base + i)) small])
        else None)"

definition expansion_group ::
    "nat \<Rightarrow> ('a \<Rightarrow> 'a \<Rightarrow> 'a) \<Rightarrow> 'a list \<Rightarrow> nat \<Rightarrow> 'a list \<Rightarrow> 'a list option" where
  "expansion_group granularity op small_acc group_index big_acc =
     (if (group_index + 1) * granularity < length big_acc \<and> group_index < length small_acc
      then fold_option
             (expansion_write ((group_index + 1) * granularity) op (small_acc ! group_index))
             (group_calls local_size granularity) big_acc
      else None)"

text \<open>
  The buffers: the in/out buffer and the vector of intermediate buffers. Level \<open>i\<close>
  has \<open>intermediate_bufs[i]\<close> as its small buffer and, as its big buffer,
  \<open>intermediate_bufs[i - 1]\<close> or, for \<open>i = 0\<close>, the in/out buffer.
\<close>

type_synonym 'a buffers = "'a list \<times> 'a list list"

definition big_buffer :: "nat \<Rightarrow> 'a buffers \<Rightarrow> 'a list" where
  "big_buffer i bufs =
     (case bufs of (in_out_buffer, intermediate_bufs) \<Rightarrow>
        if i > 0 then intermediate_bufs ! (i - 1) else in_out_buffer)"

definition update_big_buffer :: "nat \<Rightarrow> 'a list \<Rightarrow> 'a buffers \<Rightarrow> 'a buffers" where
  "update_big_buffer i b bufs =
     (case bufs of (in_out_buffer, intermediate_bufs) \<Rightarrow>
        if i > 0 then (in_out_buffer, intermediate_bufs[i - 1 := b])
        else (b, intermediate_bufs))"

text \<open>
  The kernel launches. Each is one command group handed to \<open>submit_and_profile\<close>;
  consecutive launches share a buffer, so the queue runs them in submission order, and
  the groups of one launch work on disjoint blocks. \<open>lm i g\<close> is the local memory that
  group \<open>g\<close> of the reduction of level \<open>i\<close> starts with. The reduction opens its
  small buffer with \<open>discard_write\<close>, which gives up what the buffer held:
  \<open>discarded i k\<close> is what slot \<open>k\<close> of that buffer holds when the kernel of level
  \<open>i\<close> starts, and still holds afterwards where the kernel wrote nothing.
\<close>

definition reduction_level ::
    "nat \<Rightarrow> 'a \<Rightarrow> nat \<Rightarrow> ('a \<Rightarrow> 'a \<Rightarrow> 'a) \<Rightarrow> (nat \<Rightarrow> nat \<Rightarrow> 'a local_allocation)
       \<Rightarrow> (nat \<Rightarrow> nat \<Rightarrow> 'a) \<Rightarrow> nat \<Rightarrow> 'a buffers \<Rightarrow> 'a buffers option" where
  "reduction_level warp_size zero granularity op lm discarded i bufs =
     (let big_buffer' = big_buffer i bufs;
          small_buffer = map (discarded i) [0..<length (snd bufs ! i)];
          group_range = div_ceil (length big_buffer') granularity
      in case fold_option
                (\<lambda>g. reduction_group warp_size zero granularity op (lm i g) g)
                [0..<group_range] (big_buffer', small_buffer) of
           None \<Rightarrow> None
         | Some (big', small') \<Rightarrow>
             (case update_big_buffer i big' bufs of
                (in_out_buffer, intermediate_bufs) \<Rightarrow>
                  Some (in_out_buffer, intermediate_bufs[i := small'])))"

text \<open>
  The group range of the expansion is \<open>div_ceil(count, granularity) - 1\<close> in unsigned
  arithmetic: from 0 it wraps to the largest index, and the first of those groups
  reads \<open>big_acc[granularity]\<close> of an empty buffer.
\<close>

definition expansion_level ::
    "nat \<Rightarrow> ('a \<Rightarrow> 'a \<Rightarrow> 'a) \<Rightarrow> nat \<Rightarrow> 'a buffers \<Rightarrow> 'a buffers option" where
  "expansion_level granularity op ii bufs =
     (let small_buffer = snd bufs ! ii;
          big_buffer' = big_buffer ii bufs;
          n_groups = div_ceil (length big_buffer') granularity
      in if n_groups = 0 then None
         else (case fold_option (expansion_group granularity op small_buffer)
                      [0..<n_groups - 1] big_buffer' of
                 None \<Rightarrow> None
               | Some big' \<Rightarrow> Some (update_big_buffer ii big' bufs)))"

text \<open>
  The levels whose kernel is launched, in the order of the launches: the reduction loop
  \<open>for (i = 0; i < intermediate_bufs.size(); ++i)\<close>, and the expansion loop
  \<open>for (i = 1; i < intermediate_bufs.size(); ++i)\<close> with its level
  \<open>ii = intermediate_bufs.size() - 1 - i\<close>.
\<close>

definition reduction_launches :: "'a buffers \<Rightarrow> nat list" where
  "reduction_launches bufs = [0..<length (snd bufs)]"

definition expansion_launches :: "'a buffers \<Rightarrow> nat list" where
  "expansion_launches bufs =
     map (\<lambda>i. length (snd bufs) - 1 - i) [1..<length (snd bufs)]"

definition hierarchical_inclusive_scan ::
    "nat \<Rightarrow> 'a \<Rightarrow> nat \<Rightarrow> (nat \<Rightarrow> nat \<Rightarrow> 'a local_allocation) \<Rightarrow> (nat \<Rightarrow> nat \<Rightarrow> 'a)
       \<Rightarrow> 'a buffers \<Rightarrow> ('a \<Rightarrow> 'a \<Rightarrow> 'a) \<Rightarrow> 'a buffers option" where
  "hierarchical_inclusive_scan warp_size zero granularity lm discarded bufs op =
     (case fold_option (reduction_level warp_size zero granularity op lm discarded)
             (reduction_launches bufs) bufs of
        None \<Rightarrow> None
      | Some bufs' \<Rightarrow>
          fold_option (expansion_level granularity op) (expansion_launches bufs) bufs')"

section \<open>Notions of the operator contract and of the proofs\<close>

definition associative :: "('a \<Rightarrow> 'a \<Rightarrow> 'a) \<Rightarrow> bool" where
  "associative op = (\<forall>a b c. op (op a b) c = op a (op b c))"

definition commutative :: "('a \<Rightarrow> 'a \<Rightarrow> 'a) \<Rightarrow> bool" where
  "commutative op = (\<forall>a b. op a b = op b a)"

text \<open>The combination \<open>x a \<cdot> x (a + 1) \<cdot> ... \<cdot> x (b - 1)\<close>, from the left.\<close>

definition interval_fold :: "('a \<Rightarrow> 'a \<Rightarrow> 'a) \<Rightarrow> (nat \<Rightarrow> 'a) \<Rightarrow> nat \<Rightarrow> nat \<Rightarrow> 'a" where
  "interval_fold op x a b = foldl op (x a) (map x [Suc a..<b])"

text \<open>The value lane \<open>i\<close> feeds into the sub-group scan.\<close>

definition padded :: "'a \<Rightarrow> nat \<Rightarrow> 'a list \<Rightarrow> nat \<Rightarrow> 'a" where
  "padded zero Range' acc i = (if i < Range' then acc ! i else zero)"

text \<open>
  The calls of the sub-group that works on the \<open>c\<close>-th run of \<open>warp_size\<close> items, in a
  group of \<open>m\<close> sub-groups.
\<close>

definition chunk_calls :: "nat \<Rightarrow> nat \<Rightarrow> nat \<Rightarrow> call list" where
  "chunk_calls warp_size m c =
     map (\<lambda>j. (c * warp_size + j, c div m, (c mod m) * warp_size + j)) [0..<warp_size]"

text \<open>A local memory of the type \<open>inclusive_scan_local_allocation<Value, Range>\<close>.\<close>

fun lm_fits :: "nat \<Rightarrow> nat \<Rightarrow> 'a local_allocation \<Rightarrow> bool" where
  "lm_fits warp_size Range' Empty_allocation = (Range' \<le> warp_size)"
| "lm_fits warp_size Range' (Allocation m n) =
     (Range' > warp_size \<and> length m = div_ceil Range' warp_size
      \<and> lm_fits warp_size (div_ceil Range' warp_size) n)"

text \<open>
  The element counts of the buffers from some level on, the last intermediate buffer
  included: every buffer but the last is a positive multiple of the granularity, the
  next one has a slot for each of its blocks, and the last but one is a single block.
\<close>

fun level_sizes_ok :: "nat \<Rightarrow> nat list \<Rightarrow> bool" where
  "level_sizes_ok G [] = False"
| "level_sizes_ok G [a] = False"
| "level_sizes_ok G [a, b] = (a = G \<and> 1 \<le> b)"
| "level_sizes_ok G (a # b # rest) =
     (a mod G = 0 \<and> 0 < a \<and> a div G \<le> b \<and> level_sizes_ok G (b # rest))"

text \<open>The buffers as one list: the in/out buffer, then the intermediate buffers.\<close>

definition levels :: "'a buffers \<Rightarrow> 'a list list" where
  "levels bufs = fst bufs # snd bufs"

text \<open>
  An operator within the spec's operator contract that is not commutative: the first
  non-zero argument. It is associative and has 0 as a two-sided identity.
\<close>

definition first_nonzero :: "nat \<Rightarrow> nat \<Rightarrow> nat" where
  "first_nonzero a b = (if a = 0 then b else a)"

section \<open>Theorems\<close>

text \<open>
  C10. \<open>measure_duration\<close> on one empty vector of events: the start is \<open>UINT64_MAX\<close>,
  the end is 0, and the unsigned difference \<open>end - start\<close> wraps to a duration of
  1 nanosecond.
\<close>

theorem measure_duration_empty_vector:
  "earliest_event_start (Events []) = UINT64_MAX
   \<and> latest_event_end (Events []) = 0
   \<and> measure_duration (Events []) [] = (UINT64_MAX, 0, 1)
   \<and> unat UINT64_MAX = 2 ^ 64 - 1"
  by (simp add: measure_duration_def UINT64_MAX_def)

section \<open>The submission wrapper only observes\<close>

lemma submit_and_profile_queue:
  "fst (submit_and_profile verbose q out label cgf) = fst (submit q cgf)
   \<and> fst (snd (submit_and_profile verbose q out label cgf)) = snd (submit q cgf)"
  by (simp add: submit_and_profile_def split_beta Let_def)

lemma submit_and_profile_silent:
  "\<not> (verbose \<and> enable_profiling q) \<Longrightarrow>
     snd (snd (submit_and_profile verbose q out label cgf)) = out"
  by (auto simp: submit_and_profile_def split_beta Let_def)

lemma submit_all_queue:
  "fst (submit_all verbose q out work) = map (event_of q) (map snd work)
   \<and> fst (snd (submit_all verbose q out work))
       = q\<lparr>submitted := submitted q @ map snd work\<rparr>"
proof (induction work arbitrary: q out)
  case Nil
  show ?case by simp
next
  case (Cons w work)
  obtain label cgf where w: "w = (label, cgf)" by (cases w)
  show ?case
    using Cons.IH submit_and_profile_queue [of verbose q out label cgf]
    by (simp add: w split_beta Let_def submit_def)
qed

lemma submit_all_silent:
  "\<not> (verbose \<and> enable_profiling q) \<Longrightarrow>
     snd (snd (submit_all verbose q out work)) = out"
proof (induction work arbitrary: q out)
  case Nil
  show ?case by simp
next
  case (Cons w work)
  obtain label cgf where w: "w = (label, cgf)" by (cases w)
  let ?r = "submit_and_profile verbose q out label cgf"
  have q': "enable_profiling (fst (snd ?r)) = enable_profiling q"
    using submit_and_profile_queue [of verbose q out label cgf] by (simp add: submit_def)
  have "snd (snd (submit_all verbose (fst (snd ?r)) (snd (snd ?r)) work)) = snd (snd ?r)"
    using Cons.prems q' by (intro Cons.IH) simp
  then show ?case
    using submit_and_profile_silent [OF Cons.prems, of out label cgf]
    by (simp add: w split_beta Let_def)
qed

text \<open>
  C8. In every mode the wrapper submits the given command group once, after those
  already in the queue, and returns the event of that submission; a run of any number of
  submissions leaves the queue as plain submission would. With \<open>verbose()\<close> false or
  a queue without profiling, nothing is written to the output, for one submission and
  for any number of them.
\<close>

theorem submit_and_profile_observational:
  "fst (submit_and_profile verbose q out label cgf) = event_of q cgf
   \<and> fst (snd (submit_and_profile verbose q out label cgf))
       = q\<lparr>submitted := submitted q @ [cgf]\<rparr>
   \<and> fst (submit_all verbose q out work) = map (event_of q) (map snd work)
   \<and> fst (snd (submit_all verbose q out work)) = q\<lparr>submitted := submitted q @ map snd work\<rparr>
   \<and> (\<not> (verbose \<and> enable_profiling q) \<longrightarrow>
        snd (snd (submit_and_profile verbose q out label cgf)) = out
        \<and> snd (snd (submit_all verbose q out work)) = out)"
  using submit_and_profile_queue [of verbose q out label cgf]
    submit_all_queue [of verbose q out work]
  by (simp add: submit_def submit_and_profile_silent submit_all_silent)

theorem submit_and_profile_observational_witness:
  "submit_all False
      \<lparr>enable_profiling = True, submitted = [],
        event_of = (\<lambda>k::nat. \<lparr>command_start = 5, command_end = 9\<rparr>)\<rparr> []
      [(''reduce'', 1), (''expand'', 2)]
   = ([\<lparr>command_start = 5, command_end = 9\<rparr>, \<lparr>command_start = 5, command_end = 9\<rparr>],
      \<lparr>enable_profiling = True, submitted = [1, 2],
        event_of = (\<lambda>k::nat. \<lparr>command_start = 5, command_end = 9\<rparr>)\<rparr>, [])
   \<and> snd (snd (submit_and_profile False
      \<lparr>enable_profiling = True, submitted = [],
        event_of = (\<lambda>k::nat. \<lparr>command_start = 5, command_end = 9\<rparr>)\<rparr> []
      ''reduce'' 1)) = []"
  using submit_and_profile_observational [of False
      "\<lparr>enable_profiling = True, submitted = [],
        event_of = (\<lambda>k::nat. \<lparr>command_start = 5, command_end = 9\<rparr>)\<rparr>" "[]"
      "''reduce''" 1 "[(''reduce'', 1), (''expand'', 2)]"]
  by (simp add: prod_eq_iff)

section \<open>Work distribution visits every item once\<close>

lemma distribute_for_filter:
  assumes "tid < L"
  shows "distribute_for L R tid =
    map (\<lambda>k. (k * L + tid, k, tid)) (filter (\<lambda>k. k * L + tid < R) [0..<Suc (R div L)])"
proof -
  have L: "0 < L" using assms by simp
  have full: "filter (\<lambda>k. k * L + tid < R) [0..<R div L] = [0..<R div L]"
  proof (rule filter_True, clarsimp)
    fix k assume "k < R div L"
    then have "Suc k * L \<le> R" 
      by (metis Suc_leI L less_eq_div_iff_mult_less_eq)
    then show "k * L + tid < R" using assms by simp
  qed
  have last: "(R div L * L + tid < R) = (tid < R mod L)"
    using div_mult_mod_eq [of R L] by linarith
  show ?thesis
    by (simp add: distribute_for_def distribute_for_partial_iteration_def Let_def full last)
qed

lemma count_list_distinct:
  "distinct xs \<Longrightarrow> count_list xs x = (if x \<in> set xs then 1 else 0)"
  by (induction xs) auto

lemma lane_items:
  assumes "tid < L"
  shows "map fst (distribute_for L R tid) =
    map (\<lambda>k. k * L + tid) (filter (\<lambda>k. k * L + tid < R) [0..<Suc (R div L)])"
  by (simp add: distribute_for_filter [OF assms] comp_def)

lemma lane_items_distinct:
  assumes "tid < L"
  shows "distinct (map fst (distribute_for L R tid))"
proof -
  have "inj_on (\<lambda>k. k * L + tid) A" for A
    using assms by (auto simp: inj_on_def)
  then show ?thesis
    by (simp add: lane_items [OF assms] distinct_map del: upt_Suc)
qed

lemma lane_items_set:
  assumes "tid < L"
  shows "set (map fst (distribute_for L R tid)) = {i. i < R \<and> i mod L = tid}"
proof (intro set_eqI iffI)
  fix i assume "i \<in> set (map fst (distribute_for L R tid))"
  then obtain k where "i = k * L + tid" "k * L + tid < R"
    by (auto simp: lane_items [OF assms] simp del: upt_Suc)
  then show "i \<in> {i. i < R \<and> i mod L = tid}" using assms by simp
next
  fix i assume "i \<in> {i. i < R \<and> i mod L = tid}"
  then have i: "i < R" "i mod L = tid" by simp_all
  have eq: "i div L * L + tid = i" using i(2) by (metis div_mult_mod_eq)
  have "i div L \<le> R div L" using i(1) by (simp add: div_le_mono)
  then have "i div L \<in> set (filter (\<lambda>k. k * L + tid < R) [0..<Suc (R div L)])"
    using eq i(1) by (simp del: upt_Suc)
  then have "i div L * L + tid \<in> set (map fst (distribute_for L R tid))"
    unfolding lane_items [OF assms] by (simp only: set_map image_eqI)
  then show "i \<in> set (map fst (distribute_for L R tid))" by (simp only: eq)
qed

lemma lane_items_count:
  assumes "tid < L"
  shows "count_list (map fst (distribute_for L R tid)) i =
    (if i < R \<and> i mod L = tid then 1 else 0)"
  unfolding count_list_distinct [OF lane_items_distinct [OF assms]]
      lane_items_set [OF assms] by simp

lemma group_items_count:
  assumes "0 < L"
  shows "count_list (map fst (group_calls L R)) i = (if i < R then 1 else 0)"
proof -
  have "count_list (map fst (group_calls L R)) i =
      (\<Sum>tid\<leftarrow>[0..<L]. count_list (map fst (distribute_for L R tid)) i)"
    by (simp add: group_calls_def map_concat count_list_concat comp_def)
  also have "\<dots> = (\<Sum>tid\<leftarrow>[0..<L]. if i mod L = tid then (if i < R then 1 else 0) else 0)"
    by (rule arg_cong [where f = sum_list], rule map_cong) (auto simp: lane_items_count)
  also have "\<dots> = (\<Sum>tid\<in>{0..<L}. if i mod L = tid then (if i < R then 1 else 0) else 0)"
    by (simp add: interv_sum_list_conv_sum_set_nat)
  also have "\<dots> = (if i < R then 1 else 0)"
    using assms by (simp add: sum.delta')
  finally show ?thesis .
qed

text \<open>
  C4. With at least one lane, the callback is called exactly once for every item index
  below the range and never for an index at or beyond it; lane \<open>t\<close> receives
  \<open>t, t + LocalSize, t + 2 * LocalSize, ...\<close> in the \<open>R div LocalSize\<close> full iterations,
  and one more item in the partial iteration exactly when \<open>t < R mod LocalSize\<close>.
\<close>

theorem distribute_for_exactly_once:
  assumes "0 < LocalSize"
  shows "(\<forall>i. count_list (map fst (group_calls LocalSize R)) i = (if i < R then 1 else 0))
    \<and> (\<forall>t < LocalSize. map fst (distribute_for LocalSize R t) =
          map (\<lambda>k. t + k * LocalSize) [0..<R div LocalSize]
          @ (if t < R mod LocalSize then [t + (R div LocalSize) * LocalSize] else []))"
  using assms
  by (auto simp: group_items_count distribute_for_def distribute_for_partial_iteration_def
      Let_def add.commute)

theorem distribute_for_exactly_once_witness:
  "map fst (group_calls 4 10) = [0, 4, 8, 1, 5, 9, 2, 6, 3, 7]
   \<and> count_list (map fst (group_calls 4 10)) 9 = 1
   \<and> count_list (map fst (group_calls 4 10)) 10 = 0
   \<and> map fst (distribute_for 4 10 1) = [1, 5, 9]"
proof -
  have "(\<forall>i. count_list (map fst (group_calls 4 10)) i = (if i < 10 then 1 else 0))
    \<and> (\<forall>t < 4. map fst (distribute_for 4 10 t) =
          map (\<lambda>k. t + k * 4) [0..<10 div 4]
          @ (if t < 10 mod 4 then [t + (10 div 4) * 4] else []))"
    by (rule distribute_for_exactly_once) simp
  then show ?thesis
    by (simp add: group_calls_def distribute_for_def distribute_for_partial_iteration_def
      upt_rec [of _ "numeral _"])
qed

section \<open>Sizes of the scratch structure and of the buffer chain\<close>

lemma div_ceil_less:
  assumes "2 \<le> q" "1 < p"
  shows "div_ceil p q < p"
proof -
  obtain p' q' where pq: "p = p' + 2" "q = q' + 2"
    using assms by (metis add.commute le_Suc_ex Suc_leI Suc_1 plus_1_eq_Suc add_Suc_right)
  have "p + q - 1 < p * q"
    by (simp add: pq algebra_simps)
  then show ?thesis
    by (simp add: div_ceil_def less_mult_imp_div_less)
qed

lemma div_ceil_pos: "0 < q \<Longrightarrow> 0 < p \<Longrightarrow> 0 < div_ceil p q"
  by (simp add: div_ceil_def div_greater_zero_iff)

lemma unrounded_count_Suc:
  "unrounded_count G N (Suc k) = unrounded_count G (div_ceil N G) k"
  by (induction k) simp_all

lemma allocate_loop_result:
  assumes "2 \<le> G"
  shows "\<exists>m. hierarchical_inclusive_scan_allocate_loop G n bufs
           = Some (bufs @ map (\<lambda>k. ceil (unrounded_count G n (Suc k)) G) [0..<m])
         \<and> (\<forall>k<m. 1 < unrounded_count G n k) \<and> unrounded_count G n m \<le> 1"
proof (induction n arbitrary: bufs rule: less_induct)
  case (less n)
  show ?case
  proof (cases "1 < n")
    case False
    then have "hierarchical_inclusive_scan_allocate_loop G n bufs = Some bufs"
      by (simp add: hierarchical_inclusive_scan_allocate_loop.simps)
    with False show ?thesis
      by (intro exI [of _ 0]) simp
  next
    case True
    let ?n = "div_ceil n G"
    have "?n < n" using assms True by (rule div_ceil_less)
    from less.IH [OF this, of "bufs @ [ceil ?n G]"]
    obtain m where m:
      "hierarchical_inclusive_scan_allocate_loop G ?n (bufs @ [ceil ?n G])
         = Some ((bufs @ [ceil ?n G]) @ map (\<lambda>k. ceil (unrounded_count G ?n (Suc k)) G) [0..<m])"
      "\<forall>k<m. 1 < unrounded_count G ?n k" "unrounded_count G ?n m \<le> 1"
      by blast
    have list: "map (\<lambda>k. ceil (unrounded_count G n (Suc k)) G) [0..<Suc m]
        = ceil ?n G # map (\<lambda>k. ceil (unrounded_count G ?n (Suc k)) G) [0..<m]"
      by (simp add: upt_rec [of 0 "Suc m"] map_Suc_upt [symmetric] unrounded_count_Suc
          del: upt_Suc unrounded_count.simps(2))
    have gt: "\<forall>k<Suc m. 1 < unrounded_count G n k"
    proof (intro allI impI)
      fix k assume "k < Suc m"
      then show "1 < unrounded_count G n k"
        using m(2) True by (cases k) (simp_all add: unrounded_count_Suc del: unrounded_count.simps(2))
    qed
    have "hierarchical_inclusive_scan_allocate_loop G n bufs
        = Some (bufs @ map (\<lambda>k. ceil (unrounded_count G n (Suc k)) G) [0..<Suc m])"
      using True m(1) unfolding list
      by (subst hierarchical_inclusive_scan_allocate_loop.simps) simp
    then show ?thesis
      using gt m(3) unfolding unrounded_count_Suc [symmetric] by blast
  qed
qed

text \<open>
  C5. For a granularity of at least 2 and \<open>N\<close> a multiple of it, a chain is returned;
  its level \<open>k\<close> has \<open>div_ceil\<close> of the previous unrounded count (\<open>N\<close> for level 0)
  rounded up to a multiple of the granularity; the unrounded count is above 1 at every
  level before the end of the chain and is 1 at its end (0 when \<open>N = 0\<close>, where the
  chain is empty).
\<close>

theorem allocate_chain_sizes:
  assumes "2 \<le> G" and "N mod G = 0"
  shows "\<exists>chain. hierarchical_inclusive_scan_allocate G N = Some chain
     \<and> (\<forall>k < length chain. chain ! k = ceil (div_ceil (unrounded_count G N k) G) G)
     \<and> (\<forall>k < length chain. 1 < unrounded_count G N k)
     \<and> unrounded_count G N (length chain) = (if N = 0 then 0 else 1)"
proof -
  from allocate_loop_result [OF assms(1), of N "[]"]
  obtain m where m:
    "hierarchical_inclusive_scan_allocate_loop G N []
       = Some (map (\<lambda>k. ceil (unrounded_count G N (Suc k)) G) [0..<m])"
    "\<forall>k<m. 1 < unrounded_count G N k" "unrounded_count G N m \<le> 1"
    by auto
  have pos: "0 < N \<Longrightarrow> 0 < unrounded_count G N k" for k
    using assms(1) by (induction k) (simp_all add: div_ceil_pos)
  have zero: "N = 0 \<Longrightarrow> unrounded_count G N k = 0" for k
    using assms(1) by (induction k) (simp_all add: div_ceil_def)
  have "unrounded_count G N m = (if N = 0 then 0 else 1)"
    using m(3) pos [of m] zero [of m] by (cases "N = 0") simp_all
  then show ?thesis
    using m(1,2) assms(2) by (simp add: hierarchical_inclusive_scan_allocate_def)
qed

theorem allocate_chain_sizes_witness:
  "hierarchical_inclusive_scan_allocate 4 64 = Some [16, 4, 4]
   \<and> unrounded_count 4 64 2 = 4 \<and> unrounded_count 4 64 3 = 1"
proof -
  have chain: "hierarchical_inclusive_scan_allocate 4 64 = Some [16, 4, 4]"
    by (simp add: hierarchical_inclusive_scan_allocate_def
        hierarchical_inclusive_scan_allocate_loop.simps div_ceil_def ceil_def)
  have counts: "unrounded_count 4 64 2 = 4" "unrounded_count 4 64 3 = 1"
    by (simp_all add: numeral_2_eq_2 numeral_3_eq_3 div_ceil_def)
  have "\<exists>chain. hierarchical_inclusive_scan_allocate 4 64 = Some chain
     \<and> (\<forall>k < length chain. chain ! k = ceil (div_ceil (unrounded_count 4 64 k) 4) 4)
     \<and> (\<forall>k < length chain. 1 < unrounded_count 4 64 k)
     \<and> unrounded_count 4 64 (length chain) = (if (64::nat) = 0 then 0 else 1)"
    by (rule allocate_chain_sizes) simp_all
  with chain counts show ?thesis by blast
qed

lemma local_allocation_result:
  assumes "2 \<le> ws"
  shows "\<exists>lay. inclusive_scan_local_allocation ws R = Some lay
           \<and> last (level_ranges R lay) \<le> ws"
proof (induction R rule: less_induct)
  case (less R)
  show ?case
  proof (cases "ws < R")
    case False
    then show ?thesis
      by (simp add: inclusive_scan_local_allocation.simps)
  next
    case True
    then have "div_ceil R ws < R" using assms by (intro div_ceil_less) simp_all
    from less.IH [OF this] obtain nxt where
      "inclusive_scan_local_allocation ws (div_ceil R ws) = Some nxt"
      "last (level_ranges (div_ceil R ws) nxt) \<le> ws" by blast
    moreover have "level_ranges n l \<noteq> []" for n l by (cases l) simp_all
    ultimately show ?thesis
      using True by (subst inclusive_scan_local_allocation.simps) simp
  qed
qed

text \<open>
  C7. For a warp size of at least 2 the type exists for every \<open>Range\<close>: it is the empty
  struct when \<open>Range \<le> warp_size\<close>, and otherwise an array of
  \<open>div_ceil Range warp_size\<close> elements with the type for that range nested in it; the
  innermost instantiation has a range of at most \<open>warp_size\<close>.
\<close>

theorem inclusive_scan_local_allocation_shape:
  assumes "2 \<le> warp_size"
  shows "\<exists>lay. inclusive_scan_local_allocation warp_size Range' = Some lay
     \<and> (if Range' \<le> warp_size then lay = Empty_struct
         else \<exists>nxt. inclusive_scan_local_allocation warp_size (div_ceil Range' warp_size) = Some nxt
                \<and> lay = Struct (div_ceil Range' warp_size) nxt)
     \<and> last (level_ranges Range' lay) \<le> warp_size"
proof -
  from local_allocation_result [OF assms, of Range'] obtain lay where lay:
    "inclusive_scan_local_allocation warp_size Range' = Some lay"
    "last (level_ranges Range' lay) \<le> warp_size" by blast
  from local_allocation_result [OF assms, of "div_ceil Range' warp_size"] obtain nxt where
    nxt: "inclusive_scan_local_allocation warp_size (div_ceil Range' warp_size) = Some nxt"
    by blast
  have "if Range' \<le> warp_size then lay = Empty_struct
        else lay = Struct (div_ceil Range' warp_size) nxt"
    using lay(1) nxt by (subst (asm) inclusive_scan_local_allocation.simps) (simp split: if_splits)
  then show ?thesis using lay nxt by auto
qed

theorem inclusive_scan_local_allocation_shape_witness:
  "inclusive_scan_local_allocation 2 9 = Some (Struct 5 (Struct 3 (Struct 2 Empty_struct)))
   \<and> level_ranges 9 (Struct 5 (Struct 3 (Struct 2 Empty_struct))) = [9, 5, 3, 2]
   \<and> inclusive_scan_local_allocation 2 2 = Some Empty_struct"
proof -
  have "\<exists>lay. inclusive_scan_local_allocation 2 9 = Some lay
     \<and> (if (9::nat) \<le> 2 then lay = Empty_struct
         else \<exists>nxt. inclusive_scan_local_allocation 2 (div_ceil 9 2) = Some nxt
                \<and> lay = Struct (div_ceil 9 2) nxt)
     \<and> last (level_ranges 9 lay) \<le> 2"
    by (rule inclusive_scan_local_allocation_shape) simp
  then show ?thesis
    by (simp add: inclusive_scan_local_allocation.simps div_ceil_def)
qed

section \<open>Correctness of the scans\<close>

subsection \<open>Steps that may fail\<close>

lemma fold_option_Nil [simp]: "fold_option f [] s = Some s"
  by (simp add: fold_option_def)

lemma fold_option_Nil_fun [simp]: "fold_option f [] = Some"
  by (rule ext) simp

lemma fold_bind_None: "fold (\<lambda>x st. Option.bind st (f x)) xs None = None"
  by (induction xs) simp_all

lemma fold_option_Cons: "fold_option f (x # xs) s = Option.bind (f x s) (fold_option f xs)"
  by (cases "f x s") (simp_all add: fold_option_def fold_bind_None)

lemma fold_option_append:
  "fold_option f (xs @ ys) s = Option.bind (fold_option f xs s) (fold_option f ys)"
  by (induction xs arbitrary: s) (simp_all add: fold_option_Cons split: Option.bind_split)

lemma fold_option_snoc:
  "fold_option f (xs @ [x]) s = Option.bind (fold_option f xs s) (f x)"
  by (cases "fold_option f xs s") (simp_all add: fold_option_append fold_option_Cons)

lemma fold_option_skip:
  assumes "\<And>x s. x \<in> set xs \<Longrightarrow> \<not> P x \<Longrightarrow> f x s = Some s"
  shows "fold_option f xs s = fold_option f (filter P xs) s"
  using assms
proof (induction xs arbitrary: s)
  case Nil
  show ?case by simp
next
  case (Cons x xs)
  show ?case
  proof (cases "P x")
    case True
    then show ?thesis
      using Cons by (cases "f x s") (simp_all add: fold_option_Cons)
  next
    case False
    then have "f x s = Some s" using Cons.prems by simp
    then show ?thesis using False Cons by (simp add: fold_option_Cons)
  qed
qed

subsection \<open>The naive scan and its prefixes\<close>

lemma length_scan_from [simp]: "length (scan_from op a xs) = length xs"
  by (induction xs arbitrary: a) simp_all

lemma length_naive_inclusive_scan [simp]: "length (naive_inclusive_scan op xs) = length xs"
  by (cases xs) simp_all

lemma scan_from_nth:
  "i < length xs \<Longrightarrow> scan_from op a xs ! i = foldl op a (take (Suc i) xs)"
proof (induction xs arbitrary: a i)
  case Nil
  then show ?case by simp
next
  case (Cons x xs)
  then show ?case by (cases i) simp_all
qed

lemma naive_scan_nth_interval:
  assumes "j < n"
  shows "naive_inclusive_scan op (map x [a..<a + n]) ! j = interval_fold op x a (Suc (a + j))"
proof -
  have list: "map x [a..<a + n] = x a # map x [Suc a..<a + n]"
    using assms by (simp add: upt_conv_Cons)
  show ?thesis
  proof (cases j)
    case 0
    then show ?thesis by (simp add: list interval_fold_def)
  next
    case (Suc j')
    have "take j (map x [Suc a..<a + n]) = map x [Suc a..<Suc (a + j)]"
      using assms by (simp add: take_map take_upt)
    then show ?thesis
      using assms Suc by (simp add: list interval_fold_def scan_from_nth)
  qed
qed

lemma take_scan_from: "take k (scan_from op a xs) = scan_from op a (take k xs)"
proof (induction xs arbitrary: a k)
  case Nil
  then show ?case by simp
next
  case (Cons x xs)
  then show ?case by (cases k) simp_all
qed

lemma take_naive_scan: "take k (naive_inclusive_scan op xs) = naive_inclusive_scan op (take k xs)"
  by (cases xs; cases k) (simp_all add: take_scan_from)

lemma foldl_assoc:
  assumes "associative op"
  shows "foldl op (op a b) ys = op a (foldl op b ys)"
proof (induction ys arbitrary: b)
  case Nil
  show ?case by simp
next
  case (Cons y ys)
  have "op (op a b) y = op a (op b y)" using assms by (simp add: associative_def)
  then show ?case using Cons by simp
qed

lemma interval_fold_split:
  assumes "associative op" "a < m" "m < b"
  shows "interval_fold op x a b = op (interval_fold op x a m) (interval_fold op x m b)"
proof -
  obtain d where d: "b = m + d" using assms(3) by (metis less_imp_le_nat le_Suc_ex)
  have "[Suc a..<m + d] = [Suc a..<m] @ [m..<m + d]"
    using assms(2) by (intro upt_add_eq_append) simp
  moreover have "[m..<b] = m # [Suc m..<b]"
    using assms(3) by (simp add: upt_conv_Cons)
  ultimately have "[Suc a..<b] = [Suc a..<m] @ m # [Suc m..<b]"
    by (simp add: d)
  then have "interval_fold op x a b = foldl op (op (interval_fold op x a m) (x m)) (map x [Suc m..<b])"
    by (simp add: interval_fold_def)
  then show ?thesis
    by (simp add: foldl_assoc [OF assms(1)] interval_fold_def)
qed

lemma interval_fold_single [simp]: "interval_fold op x a (Suc a) = x a"
  by (simp add: interval_fold_def)

text \<open>The scan of the totals of runs of width \<open>W\<close> gives the totals of the prefixes.\<close>

lemma totals_scan:
  assumes "associative op" "0 < W" "k < n"
  shows "naive_inclusive_scan op (map (\<lambda>c. interval_fold op x (c * W) (Suc c * W)) [0..<n]) ! k
    = interval_fold op x 0 (Suc k * W)"
proof -
  let ?T = "\<lambda>c. interval_fold op x (c * W) (Suc c * W)"
  have "interval_fold op ?T 0 (Suc k) = interval_fold op x 0 (Suc k * W)"
  proof (induction k)
    case 0
    show ?case by simp
  next
    case (Suc k)
    have "interval_fold op ?T 0 (Suc (Suc k)) = op (interval_fold op ?T 0 (Suc k)) (?T (Suc k))"
      by (simp add: interval_fold_def)
    also have "\<dots> = op (interval_fold op x 0 (Suc k * W)) (interval_fold op x (Suc k * W) (Suc (Suc k) * W))"
      by (simp only: Suc)
    also have "\<dots> = interval_fold op x 0 (Suc (Suc k) * W)"
      using assms(2) by (intro interval_fold_split [OF assms(1), symmetric]) simp_all
    finally show ?case .
  qed
  moreover have "naive_inclusive_scan op (map ?T [0..<0 + n]) ! k = interval_fold op ?T 0 (Suc (0 + k))"
    using assms(3) by (rule naive_scan_nth_interval)
  ultimately show ?thesis by simp
qed

subsection \<open>The calls of a lane, of a sub-group and of the rounds\<close>

lemma lane_calls_length:
  assumes "tid < L"
  shows "(k < length (distribute_for L R tid)) = (k * L + tid < R)"
proof -
  have L: "0 < L" using assms by simp
  have len: "length (distribute_for L R tid) = R div L + (if tid < R mod L then 1 else 0)"
    by (simp add: distribute_for_def distribute_for_partial_iteration_def Let_def)
  show ?thesis
  proof (cases "k < R div L")
    case True
    then have "Suc k * L \<le> R"
      by (metis Suc_leI L less_eq_div_iff_mult_less_eq)
    then have "k * L + tid < R" using assms by simp
    then show ?thesis using True by (simp add: len)
  next
    case False
    show ?thesis
    proof (cases "k = R div L")
      case True
      have "(R div L * L + tid < R) = (tid < R mod L)"
        using div_mult_mod_eq [of R L] by linarith
      then show ?thesis using True by (simp add: len)
    next
      case False
      then have "R div L < k" using \<open>\<not> k < R div L\<close> by simp
      then have "R < k * L"
        using L by (simp add: div_less_iff_less_mult)
      then show ?thesis using \<open>R div L < k\<close> by (simp add: len)
    qed
  qed
qed

lemma lane_calls_nth:
  assumes "tid < L" "k * L + tid < R"
  shows "distribute_for L R tid ! k = (k * L + tid, k, tid)"
proof (cases "k < R div L")
  case True
  then show ?thesis
    by (simp add: distribute_for_def Let_def nth_append)
next
  case False
  have "k * L \<le> R" using assms(2) by simp
  then have "k \<le> R div L"
    using assms(1) by (simp add: less_eq_div_iff_mult_less_eq)
  then have k: "k = R div L" using False by simp
  have "(R div L * L + tid < R) = (tid < R mod L)"
    using div_mult_mod_eq [of R L] by linarith
  then have "tid < R mod L" using assms(2) k by simp
  then show ?thesis
    by (simp add: distribute_for_def distribute_for_partial_iteration_def Let_def nth_append k)
qed

lemma concat_grid:
  "concat (map (\<lambda>k. map (\<lambda>s. g (k * m + s)) [0..<m]) [0..<K]) = map g [0..<K * m]"
proof (induction K)
  case 0
  show ?case by simp
next
  case (Suc K)
  have "map (\<lambda>s. g (K * m + s)) [0..<m] = map g [K * m..<K * m + m]"
    by (simp add: map_add_upt [symmetric] add.commute comp_def del: map_add_upt)
  moreover have "[0..<K * m + m] = [0..<K * m] @ [K * m..<K * m + m]"
    by (intro upt_add_eq_append) simp
  ultimately show ?case
    using Suc by (simp add: add.commute)
qed

lemma chunk_index:
  fixes s m k :: nat
  assumes "s < m"
  shows "(k * m + s) div m = k" "(k * m + s) mod m = s"
proof -
  have "(s + k * m) div m = k" "(s + k * m) mod m = s"
    using assms by simp_all
  then show "(k * m + s) div m = k" "(k * m + s) mod m = s"
    by (simp_all only: add.commute)
qed

lemma sub_group_round_eq:
  assumes "0 < ws" "s < m"
  shows "sub_group_round ws (m * ws) (n * ws) k s
    = (if k * m + s < n then chunk_calls ws m (k * m + s) else [])"
proof -
  let ?c = "k * m + s"
  have lanes: "[s * ws..<(s + 1) * ws] = map (\<lambda>j. s * ws + j) [0..<ws]"
    by (simp add: map_add_upt add.commute)
  have tid: "s * ws + j < m * ws" if "j < ws" for j
  proof -
    have "s * ws + j < Suc s * ws" using that by simp
    also have "\<dots> \<le> m * ws" using assms(2) by (intro mult_le_mono1) simp
    finally show ?thesis .
  qed
  have item: "k * (m * ws) + (s * ws + j) = ?c * ws + j" for j
    by (simp add: algebra_simps)
  have active: "(k * (m * ws) + (s * ws + j) < n * ws) = (?c < n)" if "j < ws" for j
  proof -
    have "(?c * ws + j < n * ws) = (?c < n)"
    proof
      assume "?c * ws + j < n * ws"
      then have "?c * ws < n * ws" by linarith
      then show "?c < n" by simp
    next
      assume "?c < n"
      then have "Suc ?c * ws \<le> n * ws" by (intro mult_le_mono1) simp
      then show "?c * ws + j < n * ws" using that by simp
    qed
    then show ?thesis by (simp only: item)
  qed
  have each: "(let calls = distribute_for (m * ws) (n * ws) (s * ws + j)
               in if k < length calls then [calls ! k] else [])
      = (if ?c < n then [(?c * ws + j, ?c div m, (?c mod m) * ws + j)] else [])"
    if "j \<in> set [0..<ws]" for j
  proof -
    have j: "j < ws" using that by simp
    show ?thesis
      using lane_calls_length [OF tid [OF j], of k "n * ws"]
        lane_calls_nth [OF tid [OF j], of k "n * ws"]
        active [OF j] item [of j] chunk_index [OF assms(2), of k]
      by (simp add: Let_def)
  qed
  have "sub_group_round ws (m * ws) (n * ws) k s
      = concat (map (\<lambda>j. if ?c < n then [(?c * ws + j, ?c div m, (?c mod m) * ws + j)] else [])
          [0..<ws])"
    unfolding sub_group_round_def lanes map_map comp_def
    by (rule arg_cong [where f = concat], rule map_cong [OF refl]) (rule each)
  then show ?thesis
    by (simp add: chunk_calls_def concat_map_singleton)
qed

lemma collective_rounds_eq:
  assumes "0 < ws" "0 < m"
  shows "filter (\<lambda>cs. cs \<noteq> []) (collective_rounds ws (m * ws) (n * ws))
    = map (chunk_calls ws m) [0..<n]"
proof -
  let ?K = "Suc (n * ws div (m * ws))"
  let ?g = "\<lambda>c. if c < n then chunk_calls ws m c else []"
  have div: "m * ws div ws = m" using assms(1) by simp
  have inner: "map (sub_group_round ws (m * ws) (n * ws) k) [0..<m]
      = map (\<lambda>s. ?g (k * m + s)) [0..<m]" for k
    by (rule map_cong [OF refl]) (simp add: sub_group_round_eq [OF assms(1)])
  have rounds: "collective_rounds ws (m * ws) (n * ws) = map ?g [0..<?K * m]"
    unfolding collective_rounds_def div inner by (rule concat_grid)
  have le: "n \<le> ?K * m"
    using assms dividend_less_div_times [of m n] by simp
  then have split: "[0..<?K * m] = [0..<n] @ [n..<?K * m]"
    by (metis le_Suc_ex upt_add_eq_append zero_le)
  have ne: "chunk_calls ws m c \<noteq> []" for c
    using assms(1) by (simp add: chunk_calls_def)
  show ?thesis
    unfolding rounds split by (simp add: ne filter_empty_conv cong: map_cong)
qed

subsection \<open>One sub-group step\<close>

lemma those_map_Some [simp]: "those (map Some xs) = Some xs"
  by (induction xs) simp_all

lemma read_chunk:
  assumes "R \<le> length acc"
  shows "those (map (read_or_zero zero R acc) (chunk_calls ws m c))
    = Some (map (padded zero R acc) [c * ws..<c * ws + ws])"
proof -
  have "read_or_zero zero R acc (i, k, t) = Some (padded zero R acc i)" for i k t
    using assms by (simp add: read_or_zero_def padded_def)
  then have "map (read_or_zero zero R acc) (chunk_calls ws m c)
      = map Some (map (\<lambda>j. padded zero R acc (c * ws + j)) [0..<ws])"
    by (simp add: chunk_calls_def comp_def)
  also have "map (\<lambda>j. padded zero R acc (c * ws + j)) [0..<ws]
      = map (padded zero R acc) [c * ws..<c * ws + ws]"
    by (simp add: map_add_upt [symmetric] add.commute comp_def del: map_add_upt)
  finally show ?thesis by (simp only: those_map_Some)
qed

lemma zip_map_upt:
  assumes "length ys = n"
  shows "zip (map f [0..<n]) ys = map (\<lambda>j. (f j, ys ! j)) [0..<n]"
  using assms by (intro nth_equalityI) simp_all

lemma chunk_scan_nth:
  assumes "j < ws"
  shows "sub_group_inclusive_scan op (map x [c * ws..<c * ws + ws]) ! j
    = interval_fold op x (c * ws) (Suc (c * ws + j))"
  unfolding sub_group_inclusive_scan_def using assms by (rule naive_scan_nth_interval)

lemma fine_write_one:
  assumes "k < fine_size" "c < length coarse" "j < ws"
  shows "fine_write ws fine_size ((c * ws + j, k, t), b) (fine, coarse)
    = Some (fine((t, k) \<mapsto> b), if Suc j = ws then coarse[c := b] else coarse)"
proof -
  have md: "(c * ws + j) mod ws = j" "(c * ws + j) div ws = c"
    using assms(3) by simp_all
  have last: "(j = ws - 1) = (Suc j = ws)" "(j = ws - Suc 0) = (Suc j = ws)"
    "(j mod ws = ws - Suc 0) = (Suc j = ws)" "((c * ws + j) mod ws = ws - Suc 0) = (Suc j = ws)"
    using assms(3) by auto
  show ?thesis
    using assms(1,2) by (simp add: fine_write_def md(2) last Let_def del: fun_upd_apply)
qed

lemma fine_write_fold:
  assumes "0 < ws" "k < fine_size" "c < length coarse" "j \<le> ws"
  shows "fold_option (fine_write ws fine_size)
      (map (\<lambda>i. ((c * ws + i, k, t0 + i), ys i)) [0..<j]) (fine, coarse)
    = Some (\<lambda>(tid, it). if it = k \<and> t0 \<le> tid \<and> tid < t0 + j
                           then Some (ys (tid - t0)) else fine (tid, it),
            if j = ws then coarse[c := ys (ws - 1)] else coarse)"
  using assms(4)
proof (induction j)
  case 0
  then show ?case using assms(1) by (auto simp: fun_eq_iff)
next
  case (Suc j)
  let ?fine = "\<lambda>j (tid, it). if it = k \<and> t0 \<le> tid \<and> tid < t0 + j
                 then Some (ys (tid - t0)) else fine (tid, it)"
  have j: "j < ws" using Suc.prems by simp
  have IH: "fold_option (fine_write ws fine_size)
      (map (\<lambda>i. ((c * ws + i, k, t0 + i), ys i)) [0..<j]) (fine, coarse)
    = Some (?fine j, coarse)"
    using Suc.IH j by simp
  have upd: "(?fine j)((t0 + j, k) \<mapsto> ys j) = ?fine (Suc j)"
    by (auto simp: fun_eq_iff less_Suc_eq)
  have "fold_option (fine_write ws fine_size)
      (map (\<lambda>i. ((c * ws + i, k, t0 + i), ys i)) [0..<Suc j]) (fine, coarse)
    = fine_write ws fine_size ((c * ws + j, k, t0 + j), ys j) (?fine j, coarse)"
    by (simp add: fold_option_snoc IH)
  also have "\<dots> = Some ((?fine j)((t0 + j, k) \<mapsto> ys j),
      if Suc j = ws then coarse[c := ys j] else coarse)"
    by (rule fine_write_one [OF assms(2,3) j])
  also have "\<dots> = Some (?fine (Suc j),
      if Suc j = ws then coarse[c := ys (ws - 1)] else coarse)"
    unfolding upd by auto
  finally show ?case .
qed

lemma fine_step_chunk:
  assumes "0 < ws" "R \<le> length acc" "c div m < fine_size" "c < length coarse"
  shows "fine_step ws zero op R fine_size acc (chunk_calls ws m c) (fine, coarse)
    = Some (\<lambda>(tid, it).
              if it = c div m \<and> (c mod m) * ws \<le> tid \<and> tid < (c mod m) * ws + ws
              then Some (interval_fold op (padded zero R acc) (c * ws)
                           (Suc (c * ws + (tid - (c mod m) * ws))))
              else fine (tid, it),
            coarse[c := interval_fold op (padded zero R acc) (c * ws) (c * ws + ws)])"
proof -
  let ?x = "padded zero R acc"
  let ?ys = "sub_group_inclusive_scan op (map ?x [c * ws..<c * ws + ws])"
  let ?F = "\<lambda>j. interval_fold op ?x (c * ws) (Suc (c * ws + j))"
  have len: "length ?ys = ws" by (simp add: sub_group_inclusive_scan_def)
  have zip: "zip (chunk_calls ws m c) ?ys
      = map (\<lambda>i. ((c * ws + i, c div m, (c mod m) * ws + i), ?F i)) [0..<ws]"
    unfolding chunk_calls_def zip_map_upt [OF len]
    by (rule map_cong [OF refl]) (simp add: chunk_scan_nth)
  have F: "?F (ws - 1) = interval_fold op ?x (c * ws) (c * ws + ws)"
    using assms(1) by simp
  show ?thesis
    unfolding fine_step_def read_chunk [OF assms(2)] option.case zip
      fine_write_fold [OF assms(1,3,4) order_refl, of _ "\<lambda>j. ?F j"] F
    by simp
qed

subsection \<open>The first phase of the recursive case\<close>

lemma fine_step_Nil: "fine_step ws zero op R fine_size acc [] st = Some st"
  by (simp add: fine_step_def sub_group_inclusive_scan_def)

lemma fine_phase_prefix:
  assumes "0 < ws" "R \<le> length acc" "\<forall>c<length coarse. c div m < fine_size"
    and "c \<le> length coarse"
  shows "\<exists>fine'. fold_option (fine_step ws zero op R fine_size acc)
        (map (chunk_calls ws m) [0..<c]) (fine, coarse)
      = Some (fine', map (\<lambda>c. interval_fold op (padded zero R acc) (c * ws) (c * ws + ws)) [0..<c]
                     @ drop c coarse)
    \<and> (\<forall>c'<c. \<forall>j<ws. fine' ((c' mod m) * ws + j, c' div m)
          = Some (interval_fold op (padded zero R acc) (c' * ws) (Suc (c' * ws + j))))"
  using assms(4)
proof (induction c)
  case 0
  show ?case by simp
next
  case (Suc c)
  let ?x = "padded zero R acc"
  let ?T = "\<lambda>c. interval_fold op ?x (c * ws) (c * ws + ws)"
  let ?F = "\<lambda>c j. interval_fold op ?x (c * ws) (Suc (c * ws + j))"
  have c: "c < length coarse" using Suc.prems by simp
  from Suc.IH c obtain fine1 where
    run: "fold_option (fine_step ws zero op R fine_size acc)
        (map (chunk_calls ws m) [0..<c]) (fine, coarse)
      = Some (fine1, map ?T [0..<c] @ drop c coarse)"
    and inv: "\<forall>c'<c. \<forall>j<ws. fine1 ((c' mod m) * ws + j, c' div m) = Some (?F c' j)"
    by auto
  let ?coarse1 = "map ?T [0..<c] @ drop c coarse"
  let ?fine2 = "\<lambda>(tid, it).
      if it = c div m \<and> (c mod m) * ws \<le> tid \<and> tid < (c mod m) * ws + ws
      then Some (?F c (tid - (c mod m) * ws)) else fine1 (tid, it)"
  have len1: "c < length ?coarse1" using c by simp
  have step: "fine_step ws zero op R fine_size acc (chunk_calls ws m c) (fine1, ?coarse1)
      = Some (?fine2, ?coarse1[c := ?T c])"
    using assms(3) c by (intro fine_step_chunk [OF assms(1,2) _ len1]) simp
  have coarse2: "?coarse1[c := ?T c] = map ?T [0..<Suc c] @ drop (Suc c) coarse"
    using c by (simp add: list_update_append Cons_nth_drop_Suc [symmetric] del: upt_Suc)
      (simp add: upd_conv_take_nth_drop)
  have inv2: "?fine2 ((c' mod m) * ws + j, c' div m) = Some (?F c' j)"
    if "c' < Suc c" "j < ws" for c' j
  proof (cases "c' = c")
    case True
    then show ?thesis using that(2) by simp
  next
    case False
    then have lt: "c' < c" using that(1) by simp
    have "\<not> (c' div m = c div m \<and> (c mod m) * ws \<le> (c' mod m) * ws + j
        \<and> (c' mod m) * ws + j < (c mod m) * ws + ws)"
    proof
      assume a: "c' div m = c div m \<and> (c mod m) * ws \<le> (c' mod m) * ws + j
        \<and> (c' mod m) * ws + j < (c mod m) * ws + ws"
      then have "(c mod m) * ws < Suc (c' mod m) * ws" using that(2) by simp
      then have "c mod m < Suc (c' mod m)"
        by (rule mult_less_cancel2 [THEN iffD1, THEN conjunct2])
      then have 1: "c mod m \<le> c' mod m" by simp
      from a have "(c' mod m) * ws < Suc (c mod m) * ws" by simp
      then have "c' mod m < Suc (c mod m)"
        by (rule mult_less_cancel2 [THEN iffD1, THEN conjunct2])
      then have 2: "c' mod m \<le> c mod m" by simp
      from 1 2 a have "c' = c" by (metis div_mult_mod_eq le_antisym)
      then show False using False by simp
    qed
    then show ?thesis using inv lt that(2) by auto
  qed
  have "fold_option (fine_step ws zero op R fine_size acc)
        (map (chunk_calls ws m) [0..<Suc c]) (fine, coarse)
      = Some (?fine2, map ?T [0..<Suc c] @ drop (Suc c) coarse)"
    by (simp add: fold_option_snoc run step coarse2 [symmetric] del: upt_Suc)
      (simp add: fold_option_snoc run step)
  then show ?case using inv2 by blast
qed

lemma fine_size_bound:
  assumes "0 < ws" "0 < m" "c < div_ceil R ws"
  shows "c div m < div_ceil R (m * ws)"
proof -
  have R: "0 < R" using assms(1,3) by (cases R) (simp_all add: div_ceil_def)
  then obtain r where r: "R = Suc r" by (cases R) simp_all
  have 1: "div_ceil R ws = Suc (r div ws)"
    using assms(1) by (simp add: div_ceil_def r div_add_self2)
  have 2: "div_ceil R (m * ws) = Suc (r div ws div m)"
  proof -
    have "(r + m * ws) div (m * ws) = Suc (r div (m * ws))"
      using assms(1,2) by (simp add: div_add_self2)
    also have "r div (m * ws) = r div ws div m"
      by (simp only: mult.commute [of m ws] div_mult2_eq)
    finally show ?thesis by (simp add: div_ceil_def r)
  qed
  have "c \<le> r div ws" using assms(3) 1 by simp
  then have "c div m \<le> r div ws div m" by (rule div_le_mono)
  then show ?thesis by (simp add: 2)
qed

lemma fine_phase:
  assumes "0 < ws" "0 < m" "R \<le> length acc" "length coarse = div_ceil R ws"
  shows "\<exists>fine'. fold_option (fine_step ws zero op R (div_ceil R (m * ws)) acc)
        (collective_rounds ws (m * ws) (ceil R ws)) (fine, coarse)
      = Some (fine', map (\<lambda>c. interval_fold op (padded zero R acc) (c * ws) (c * ws + ws))
                       [0..<div_ceil R ws])
    \<and> (\<forall>c'<div_ceil R ws. \<forall>j<ws. fine' ((c' mod m) * ws + j, c' div m)
          = Some (interval_fold op (padded zero R acc) (c' * ws) (Suc (c' * ws + j))))"
proof -
  let ?n = "div_ceil R ws"
  let ?f = "fine_step ws zero op R (div_ceil R (m * ws)) acc"
  have "fold_option ?f (collective_rounds ws (m * ws) (ceil R ws)) (fine, coarse)
      = fold_option ?f (filter (\<lambda>cs. cs \<noteq> []) (collective_rounds ws (m * ws) (?n * ws)))
          (fine, coarse)"
    unfolding ceil_def by (rule fold_option_skip) (simp add: fine_step_Nil)
  also have "\<dots> = fold_option ?f (map (chunk_calls ws m) [0..<?n]) (fine, coarse)"
    by (simp only: collective_rounds_eq [OF assms(1,2)])
  finally have eq: "fold_option ?f (collective_rounds ws (m * ws) (ceil R ws)) (fine, coarse)
      = fold_option ?f (map (chunk_calls ws m) [0..<?n]) (fine, coarse)" .
  have bound: "\<forall>c<length coarse. c div m < div_ceil R (m * ws)"
    using fine_size_bound [OF assms(1,2)] assms(4) by simp
  show ?thesis
    unfolding eq
    using fine_phase_prefix [OF assms(1,3) bound, where c = ?n and op = op and zero = zero
        and fine = fine] assms(4)
    by simp
qed

subsection \<open>Writes of distinct items\<close>

lemma fold_writes:
  fixes acc :: "'v list"
  assumes step: "\<And>p a. p \<in> set ps \<Longrightarrow> length a = length acc \<Longrightarrow>
      w p a = Some (if upd p then a[idx p := g p (a ! idx p)] else a)"
    and dist: "distinct (map idx ps)"
  shows "\<exists>acc'. fold_option w ps acc = Some acc' \<and> length acc' = length acc
    \<and> (\<forall>p\<in>set ps. upd p \<longrightarrow> idx p < length acc \<longrightarrow> acc' ! idx p = g p (acc ! idx p))
    \<and> (\<forall>i. (\<forall>p\<in>set ps. upd p \<longrightarrow> idx p \<noteq> i) \<longrightarrow> acc' ! i = acc ! i)"
  using assms
proof (induction ps arbitrary: acc)
  case Nil
  show ?case by simp
next
  case (Cons p ps)
  let ?a = "if upd p then acc[idx p := g p (acc ! idx p)] else acc"
  have first: "w p acc = Some ?a" by (rule Cons.prems(1)) simp_all
  have len: "length ?a = length acc" by simp
  have "\<exists>acc'. fold_option w ps ?a = Some acc' \<and> length acc' = length ?a
    \<and> (\<forall>q\<in>set ps. upd q \<longrightarrow> idx q < length ?a \<longrightarrow> acc' ! idx q = g q (?a ! idx q))
    \<and> (\<forall>i. (\<forall>q\<in>set ps. upd q \<longrightarrow> idx q \<noteq> i) \<longrightarrow> acc' ! i = ?a ! i)"
  proof (rule Cons.IH)
    fix q and a :: "'v list" assume "q \<in> set ps" "length a = length ?a"
    then show "w q a = Some (if upd q then a[idx q := g q (a ! idx q)] else a)"
      using Cons.prems(1) [of q a] by simp
  next
    show "distinct (map idx ps)" using Cons.prems(2) by simp
  qed
  then obtain acc' where acc': "fold_option w ps ?a = Some acc'" "length acc' = length acc"
    and new: "\<forall>q\<in>set ps. upd q \<longrightarrow> idx q < length acc \<longrightarrow> acc' ! idx q = g q (?a ! idx q)"
    and old: "\<forall>i. (\<forall>q\<in>set ps. upd q \<longrightarrow> idx q \<noteq> i) \<longrightarrow> acc' ! i = ?a ! i"
    by auto
  have notin: "idx p \<notin> idx ` set ps" using Cons.prems(2) by simp
  have 1: "\<forall>q\<in>set (p # ps). upd q \<longrightarrow> idx q < length acc \<longrightarrow> acc' ! idx q = g q (acc ! idx q)"
  proof (intro ballI impI)
    fix q assume q: "q \<in> set (p # ps)" "upd q" "idx q < length acc"
    show "acc' ! idx q = g q (acc ! idx q)"
    proof (cases "q \<in> set ps")
      case True
      then have "idx q \<in> idx ` set ps" by (rule imageI)
      then have "idx q \<noteq> idx p" using notin by metis
      then show ?thesis using new True q by simp
    next
      case False
      then have qp: "q = p" using q(1) by simp
      have "\<forall>q\<in>set ps. upd q \<longrightarrow> idx q \<noteq> idx p"
      proof (intro ballI impI)
        fix q' assume "q' \<in> set ps"
        then have "idx q' \<in> idx ` set ps" by (rule imageI)
        with notin show "idx q' \<noteq> idx p" by metis
      qed
      then have "acc' ! idx p = ?a ! idx p" using old by blast
      then show ?thesis using q qp by simp
    qed
  qed
  have 2: "\<forall>i. (\<forall>q\<in>set (p # ps). upd q \<longrightarrow> idx q \<noteq> i) \<longrightarrow> acc' ! i = acc ! i"
    using old by auto
  show ?case
    using acc' 1 2 by (simp add: fold_option_Cons first)
qed

lemma count_list_distinctI:
  assumes "\<And>x. count_list xs x \<le> 1"
  shows "distinct xs"
  using assms
proof (induction xs)
  case Nil
  show ?case by simp
next
  case (Cons a xs)
  have "count_list xs a = 0" using Cons.prems [of a] by simp
  then have "a \<notin> set xs" by (simp add: count_list_0_iff)
  moreover have "count_list xs x \<le> 1" for x
    using Cons.prems [of x] by (simp split: if_splits)
  ultimately show ?case using Cons.IH by simp
qed

lemma group_calls_items:
  assumes "0 < L"
  shows "distinct (map fst (group_calls L R))" "fst ` set (group_calls L R) = {0..<R}"
proof -
  let ?xs = "map fst (group_calls L R)"
  have cnt: "count_list ?xs i = (if i < R then 1 else 0)" for i
    by (rule group_items_count [OF assms])
  have mem: "(i \<in> set ?xs) = (i < R)" for i
    using cnt [of i] count_list_0_iff [of ?xs i] by (auto split: if_splits)
  show "distinct ?xs"
    by (rule count_list_distinctI) (simp add: cnt)
  have "set ?xs = {0..<R}"
  proof (rule set_eqI)
    fix i show "(i \<in> set ?xs) = (i \<in> {0..<R})" using mem [of i] by simp
  qed
  then show "fst ` set (group_calls L R) = {0..<R}" by simp
qed

lemma group_calls_lane:
  assumes "(item, it, tid) \<in> set (group_calls L R)"
  shows "tid < L \<and> item = it * L + tid"
  using assms
  by (auto simp: group_calls_def distribute_for_def distribute_for_partial_iteration_def Let_def
      split: if_splits)

subsection \<open>The second phase of the recursive case\<close>

lemma lane_of_item:
  fixes tid m ws it :: nat
  assumes "tid < m * ws"
  shows "(it * (m * ws) + tid) div ws div m = it"
    and "(it * (m * ws) + tid) div ws mod m * ws + (it * (m * ws) + tid) mod ws = tid"
proof -
  have ws: "0 < ws" using assms by (cases ws) simp_all
  have d: "(it * (m * ws) + tid) div ws = it * m + tid div ws"
    using ws by (simp add: mult.assoc [symmetric])
  have md: "(it * (m * ws) + tid) mod ws = tid mod ws"
    by (simp add: mult.assoc [symmetric])
  have s: "tid div ws < m"
    using assms ws by (simp add: less_mult_imp_div_less)
  show "(it * (m * ws) + tid) div ws div m = it"
    unfolding d by (rule chunk_index(1) [OF s])
  show "(it * (m * ws) + tid) div ws mod m * ws + (it * (m * ws) + tid) mod ws = tid"
    unfolding d md chunk_index(2) [OF s] by simp
qed

lemma item_chunk_less:
  assumes "0 < ws" "i < R"
  shows "i div ws < div_ceil R ws"
proof -
  obtain r where r: "R = Suc r" using assms(2) by (cases R) simp_all
  have "div_ceil R ws = Suc (r div ws)"
    using assms(1) by (simp add: div_ceil_def r div_add_self2)
  moreover have "i div ws \<le> r div ws"
    using assms(2) r by (intro div_le_mono) simp
  ultimately show ?thesis by simp
qed

lemma carry_phase:
  assumes "0 < ws" "0 < m" "R \<le> length acc" "length coarse2 = div_ceil R ws"
    and fine: "\<forall>c'<div_ceil R ws. \<forall>j<ws. fine ((c' mod m) * ws + j, c' div m) = Some (F c' j)"
  shows "\<exists>acc'. fold_option (carry_write ws op fine coarse2) (group_calls (m * ws) R) acc
      = Some acc' \<and> length acc' = length acc
    \<and> (\<forall>i<R. acc' ! i = (if ws \<le> i then op (F (i div ws) (i mod ws)) (coarse2 ! (i div ws - 1))
                          else F (i div ws) (i mod ws)))
    \<and> (\<forall>i. R \<le> i \<longrightarrow> acc' ! i = acc ! i)"
proof -
  let ?L = "m * ws"
  let ?v = "\<lambda>i. if ws \<le> i then op (F (i div ws) (i mod ws)) (coarse2 ! (i div ws - 1))
                  else F (i div ws) (i mod ws)"
  have L: "0 < ?L" using assms(1,2) by simp
  have items: "distinct (map fst (group_calls ?L R))" "fst ` set (group_calls ?L R) = {0..<R}"
    by (rule group_calls_items [OF L])+
  have step: "carry_write ws op fine coarse2 p a
      = Some (if True then a[fst p := (\<lambda>p old. ?v (fst p)) p (a ! fst p)] else a)"
    if p: "p \<in> set (group_calls ?L R)" and a: "length a = length acc" for p and a :: "'a list"
  proof -
    obtain item it tid where pp: "p = (item, it, tid)" by (cases p)
    have lane: "tid < ?L" "item = it * ?L + tid"
      using group_calls_lane [of item it tid ?L R] p pp by simp_all
    have "fst p \<in> fst ` set (group_calls ?L R)" using p by (rule imageI)
    then have item: "item < R" unfolding items(2) pp by simp
    have c: "item div ws < div_ceil R ws" by (rule item_chunk_less [OF assms(1) item])
    have j: "item mod ws < ws" using assms(1) by simp
    have "fine ((item div ws mod m) * ws + item mod ws, item div ws div m)
        = Some (F (item div ws) (item mod ws))"
      using fine c j by blast
    then have f: "fine (tid, it) = Some (F (item div ws) (item mod ws))"
      unfolding lane(2) lane_of_item [OF lane(1)] .
    have b: "item div ws - Suc 0 < length coarse2" using c assms(4) by simp
    have "item < length a" using item assms(3) a by simp
    then show ?thesis
      by (simp add: carry_write_def pp f b)
  qed
  from fold_writes [of "group_calls ?L R" acc "carry_write ws op fine coarse2" "\<lambda>p. True"
      fst "\<lambda>p old. ?v (fst p)", OF step items(1)]
  obtain acc' where acc': "fold_option (carry_write ws op fine coarse2) (group_calls ?L R) acc
      = Some acc'" "length acc' = length acc"
    and new: "\<forall>p\<in>set (group_calls ?L R). True \<longrightarrow> fst p < length acc \<longrightarrow> acc' ! fst p = ?v (fst p)"
    and old: "\<forall>i. (\<forall>p\<in>set (group_calls ?L R). True \<longrightarrow> fst p \<noteq> i) \<longrightarrow> acc' ! i = acc ! i"
    by blast
  have 1: "acc' ! i = ?v i" if "i < R" for i
  proof -
    have "i \<in> fst ` set (group_calls ?L R)" unfolding items(2) using that by simp
    then obtain p where "p \<in> set (group_calls ?L R)" "fst p = i" by auto
    then show ?thesis using new that assms(3) by auto
  qed
  have 2: "acc' ! i = acc ! i" if "R \<le> i" for i
  proof -
    have "i \<notin> fst ` set (group_calls ?L R)" unfolding items(2) using that by simp
    then have "\<forall>p\<in>set (group_calls ?L R). True \<longrightarrow> fst p \<noteq> i" by auto
    then show ?thesis using old by blast
  qed
  show ?thesis using acc' 1 2 by blast
qed

subsection \<open>The base case\<close>

lemma base_step_Nil: "base_step zero op R [] acc = Some acc"
  by (simp add: base_step_def sub_group_inclusive_scan_def)

lemma take_padded:
  assumes "R \<le> length acc"
  shows "take R acc = map (padded zero R acc) [0..<0 + R]"
  using assms by (intro nth_equalityI) (simp_all add: padded_def)

lemma div_ceil_small:
  assumes "0 < R" "R \<le> ws"
  shows "div_ceil R ws = 1"
proof -
  obtain r where r: "R = Suc r" using assms(1) by (cases R) simp_all
  have "r < ws" using assms(2) r by simp
  then show ?thesis by (simp add: div_ceil_def r div_add_self2)
qed

lemma base_step_chunk:
  assumes "0 < ws" "R \<le> ws" "R \<le> length acc"
  shows "base_step zero op R (chunk_calls ws m 0) acc
    = Some (naive_inclusive_scan op (take R acc) @ drop R acc)"
proof -
  let ?x = "padded zero R acc"
  let ?ys = "sub_group_inclusive_scan op (map ?x [0 * ws..<0 * ws + ws])"
  let ?ps = "map (\<lambda>j. ((0 * ws + j, 0 div m, (0 mod m) * ws + j), ?ys ! j)) [0..<ws]"
  have len: "length ?ys = ws" by (simp add: sub_group_inclusive_scan_def)
  have run: "base_step zero op R (chunk_calls ws m 0) acc
      = fold_option (base_write R) ?ps acc"
  proof -
    have zip: "zip (chunk_calls ws m 0) ?ys = ?ps"
      unfolding chunk_calls_def by (rule zip_map_upt [OF len])
    show ?thesis
      by (simp only: base_step_def read_chunk [OF assms(3)] option.case zip)
  qed
  have step: "base_write R p a
      = Some (if fst (fst p) < R then a[fst (fst p) := (\<lambda>p old. snd p) p (a ! fst (fst p))] else a)"
    if "p \<in> set ?ps" "length a = length acc" for p and a :: "'a list"
    using that assms(3) by (cases p) (auto simp: base_write_def)
  have dist: "distinct (map (\<lambda>p. fst (fst p)) ?ps)"
    by (simp add: comp_def)
  from fold_writes [of ?ps acc "base_write R" "\<lambda>p. fst (fst p) < R" "\<lambda>p. fst (fst p)"
      "\<lambda>p old. snd p", OF step dist]
  obtain acc' where acc': "fold_option (base_write R) ?ps acc = Some acc'"
      "length acc' = length acc"
    and new: "\<forall>p\<in>set ?ps. fst (fst p) < R \<longrightarrow> fst (fst p) < length acc
        \<longrightarrow> acc' ! fst (fst p) = snd p"
    and old: "\<forall>i. (\<forall>p\<in>set ?ps. fst (fst p) < R \<longrightarrow> fst (fst p) \<noteq> i) \<longrightarrow> acc' ! i = acc ! i"
    by blast
  have 1: "acc' ! i = naive_inclusive_scan op (take R acc) ! i" if "i < R" for i
  proof -
    have i: "i < ws" using that assms(2) by simp
    then have "((0 * ws + i, 0 div m, (0 mod m) * ws + i), ?ys ! i) \<in> set ?ps" by simp
    then have "acc' ! i = ?ys ! i" using new that assms(3) by force
    also have "\<dots> = interval_fold op ?x (0 * ws) (Suc (0 * ws + i))"
      by (rule chunk_scan_nth [OF i])
    also have "\<dots> = naive_inclusive_scan op (map ?x [0..<0 + R]) ! i"
      using naive_scan_nth_interval [OF that, of op ?x 0] by simp
    finally show ?thesis by (simp only: take_padded [OF assms(3), symmetric])
  qed
  have 2: "acc' ! i = acc ! i" if "R \<le> i" for i
  proof -
    have "\<forall>p\<in>set ?ps. fst (fst p) < R \<longrightarrow> fst (fst p) \<noteq> i" using that by auto
    then show ?thesis using old by blast
  qed
  have "acc' = naive_inclusive_scan op (take R acc) @ drop R acc"
  proof (rule nth_equalityI)
    show "length acc' = length (naive_inclusive_scan op (take R acc) @ drop R acc)"
      using acc'(2) assms(3) by simp
  next
    fix i assume "i < length acc'"
    then show "acc' ! i = (naive_inclusive_scan op (take R acc) @ drop R acc) ! i"
      using 1 [of i] 2 [of i] assms(3) acc'(2) by (simp add: nth_append)
  qed
  then show ?thesis by (simp only: run acc'(1))
qed

lemma base_case:
  assumes "0 < ws" "0 < m" "R \<le> ws" "R \<le> length acc"
  shows "fold_option (base_step zero op R) (collective_rounds ws (m * ws) (ceil R ws)) acc
    = Some (naive_inclusive_scan op (take R acc) @ drop R acc)"
proof -
  let ?n = "div_ceil R ws"
  let ?f = "base_step zero op R"
  have "fold_option ?f (collective_rounds ws (m * ws) (ceil R ws)) acc
      = fold_option ?f (filter (\<lambda>cs. cs \<noteq> []) (collective_rounds ws (m * ws) (?n * ws))) acc"
    unfolding ceil_def by (rule fold_option_skip) (simp add: base_step_Nil)
  also have "\<dots> = fold_option ?f (map (chunk_calls ws m) [0..<?n]) acc"
    by (simp only: collective_rounds_eq [OF assms(1,2)])
  finally have eq: "fold_option ?f (collective_rounds ws (m * ws) (ceil R ws)) acc
      = fold_option ?f (map (chunk_calls ws m) [0..<?n]) acc" .
  show ?thesis
  proof (cases "R = 0")
    case True
    then have "?n = 0" using assms(1) by (simp add: div_ceil_def)
    then show ?thesis unfolding eq using True by simp
  next
    case False
    then have "?n = 1" using assms(3) by (intro div_ceil_small) simp_all
    then show ?thesis
      unfolding eq using base_step_chunk [OF assms(1,3,4), of zero op m]
      by (simp add: fold_option_Cons)
  qed
qed

subsection \<open>The group-local scan\<close>

lemma carry_combine:
  assumes "associative op" "commutative op" "0 < W" "W \<le> i"
  shows "op (interval_fold op x (i div W * W) (Suc i)) (interval_fold op x 0 (i div W * W))
    = interval_fold op x 0 (Suc i)"
proof -
  have "0 < i div W" using assms(3,4) by (simp add: div_greater_zero_iff)
  then have 1: "0 < i div W * W" using assms(3) by simp
  have 2: "i div W * W < Suc i"
    by (metis div_times_less_eq_dividend le_imp_less_Suc)
  have "op (interval_fold op x (i div W * W) (Suc i)) (interval_fold op x 0 (i div W * W))
      = op (interval_fold op x 0 (i div W * W)) (interval_fold op x (i div W * W) (Suc i))"
    using assms(2) by (simp add: commutative_def)
  also have "\<dots> = interval_fold op x 0 (Suc i)"
    by (rule interval_fold_split [OF assms(1) 1 2, symmetric])
  finally show ?thesis .
qed

lemma group_scan:
  assumes "0 < ws" "0 < m" "lm_fits ws R lm" "R \<le> length acc"
  shows "\<exists>acc' lm'. inclusive_scan_over_group ws zero R (m * ws) acc lm op = Some (acc', lm')
    \<and> length acc' = length acc \<and> drop R acc' = drop R acc \<and> lm_fits ws R lm'
    \<and> (associative op \<longrightarrow> commutative op \<longrightarrow>
         take R acc' = naive_inclusive_scan op (take R acc))"
  using assms(3,4)
proof (induction lm arbitrary: R acc)
  case Empty_allocation
  then have R: "R \<le> ws" by simp
  have "inclusive_scan_over_group ws zero R (m * ws) acc Empty_allocation op
      = Some (naive_inclusive_scan op (take R acc) @ drop R acc, Empty_allocation)"
    using R by (simp add: base_case [OF assms(1,2) R Empty_allocation.prems(2)])
  then show ?case
    using R Empty_allocation.prems(2) by simp
next
  case (Allocation coarse nxt)
  let ?n = "div_ceil R ws"
  let ?x = "padded zero R acc"
  let ?T = "\<lambda>c. interval_fold op ?x (c * ws) (c * ws + ws)"
  let ?F = "\<lambda>c j. interval_fold op ?x (c * ws) (Suc (c * ws + j))"
  let ?coarse1 = "map ?T [0..<?n]"
  have R: "ws < R" and len: "length coarse = ?n" and fits: "lm_fits ws ?n nxt"
    using Allocation.prems(1) by simp_all
  have acc: "R \<le> length acc" by (rule Allocation.prems(2))
  from fine_phase [OF assms(1,2) acc len, of zero op Map.empty]
  obtain fine where phase1: "fold_option (fine_step ws zero op R (div_ceil R (m * ws)) acc)
        (collective_rounds ws (m * ws) (ceil R ws)) (Map.empty, coarse) = Some (fine, ?coarse1)"
    and fine: "\<forall>c'<?n. \<forall>j<ws. fine ((c' mod m) * ws + j, c' div m) = Some (?F c' j)"
    by blast
  have "?n \<le> length ?coarse1" by simp
  from Allocation.IH [OF fits this]
  obtain coarse2 nxt' where rec: "inclusive_scan_over_group ws zero ?n (m * ws) ?coarse1 nxt op
      = Some (coarse2, nxt')"
    and len2: "length coarse2 = ?n" and fits': "lm_fits ws ?n nxt'"
    and scan2: "associative op \<longrightarrow> commutative op \<longrightarrow>
        take ?n coarse2 = naive_inclusive_scan op (take ?n ?coarse1)"
    by auto
  from carry_phase [OF assms(1,2) acc len2 fine, of op]
  obtain acc' where phase2: "fold_option (carry_write ws op fine coarse2)
        (group_calls (m * ws) R) acc = Some acc'"
    and len': "length acc' = length acc"
    and new: "\<forall>i<R. acc' ! i = (if ws \<le> i then op (?F (i div ws) (i mod ws))
        (coarse2 ! (i div ws - 1)) else ?F (i div ws) (i mod ws))"
    and old: "\<forall>i. R \<le> i \<longrightarrow> acc' ! i = acc ! i"
    by blast
  have result: "inclusive_scan_over_group ws zero R (m * ws) acc (Allocation coarse nxt) op
      = Some (acc', Allocation coarse2 nxt')"
    using R len by (simp add: phase1 rec phase2)
  have frame: "drop R acc' = drop R acc"
    using len' old by (intro nth_equalityI) simp_all
  have vals: "take R acc' = naive_inclusive_scan op (take R acc)"
    if assoc: "associative op" and comm: "commutative op"
  proof (rule nth_equalityI)
    show "length (take R acc') = length (naive_inclusive_scan op (take R acc))"
      using len' by simp
  next
    fix i assume "i < length (take R acc')"
    then have i: "i < R" by simp
    have c2: "coarse2 = naive_inclusive_scan op ?coarse1"
      using scan2 assoc comm len2 by simp
    have spec: "naive_inclusive_scan op (take R acc) ! i = interval_fold op ?x 0 (Suc i)"
      unfolding take_padded [OF acc, of zero]
      using naive_scan_nth_interval [OF i, of op ?x 0] by simp
    have ij: "i div ws * ws + i mod ws = i" by simp
    show "take R acc' ! i = naive_inclusive_scan op (take R acc) ! i"
    proof (cases "ws \<le> i")
      case False
      then have "i div ws = 0" "i mod ws = i" by simp_all
      then show ?thesis using new i False spec by simp
    next
      case True
      have c: "i div ws < ?n" by (rule item_chunk_less [OF assms(1) i])
      have pos: "0 < i div ws" using True assms(1) by (simp add: div_greater_zero_iff)
      then have k: "i div ws - 1 < ?n" "Suc (i div ws - 1) = i div ws" using c by simp_all
      have T: "?coarse1 = map (\<lambda>c. interval_fold op ?x (c * ws) (Suc c * ws)) [0..<?n]"
        by (simp add: add.commute)
      have "coarse2 ! (i div ws - 1) = interval_fold op ?x 0 (i div ws * ws)"
        unfolding c2 T using totals_scan [OF assoc assms(1) k(1), of ?x] by (simp only: k(2))
      moreover have "?F (i div ws) (i mod ws) = interval_fold op ?x (i div ws * ws) (Suc i)"
        by (simp only: ij)
      ultimately have "acc' ! i
          = op (interval_fold op ?x (i div ws * ws) (Suc i)) (interval_fold op ?x 0 (i div ws * ws))"
        using new i True by simp
      also have "\<dots> = interval_fold op ?x 0 (Suc i)"
        by (rule carry_combine [OF assoc comm assms(1) True])
      finally show ?thesis using i spec by simp
    qed
  qed
  show ?case
    using result len' frame vals R len2 fits' by simp
qed

text \<open>
  C3. In the base case, with lanes in whole warps, the entries below \<open>Range\<close> are
  overwritten with the sequential inclusive scan of the first \<open>Range\<close> elements and the
  rest of the accessor is untouched; the result is the same whatever value pads the
  lanes at or beyond \<open>Range\<close>.
\<close>

theorem inclusive_scan_over_group_base_case:
  assumes "0 < warp_size" and "0 < LocalSize" and "LocalSize mod warp_size = 0"
    and "Range' \<le> warp_size" and "Range' \<le> length acc"
  shows "inclusive_scan_over_group warp_size zero Range' LocalSize acc Empty_allocation op
      = Some (naive_inclusive_scan op (take Range' acc) @ drop Range' acc, Empty_allocation)
    \<and> inclusive_scan_over_group warp_size zero' Range' LocalSize acc Empty_allocation op
      = inclusive_scan_over_group warp_size zero Range' LocalSize acc Empty_allocation op"
proof -
  obtain m where m: "LocalSize = m * warp_size"
    using assms(3) by (auto simp: mod_eq_0_iff_dvd dvd_def mult.commute)
  have mpos: "0 < m" using assms(2) m by (cases m) simp_all
  have "inclusive_scan_over_group warp_size z Range' LocalSize acc Empty_allocation op
      = Some (naive_inclusive_scan op (take Range' acc) @ drop Range' acc, Empty_allocation)"
    for z
    using assms(3,4) base_case [OF assms(1) mpos assms(4,5), of z op]
    by (simp add: m)
  then show ?thesis by simp
qed

theorem inclusive_scan_over_group_base_case_witness:
  "inclusive_scan_over_group 4 0 3 8 [5, 7, 11, 13, 17 :: nat] Empty_allocation (+)
     = Some ([5, 12, 23, 13, 17], Empty_allocation)
   \<and> inclusive_scan_over_group 4 99 3 8 [5, 7, 11, 13, 17 :: nat] Empty_allocation (+)
     = Some ([5, 12, 23, 13, 17], Empty_allocation)"
proof -
  have "inclusive_scan_over_group 4 0 3 8 [5, 7, 11, 13, 17 :: nat] Empty_allocation (+)
      = Some (naive_inclusive_scan (+) (take 3 [5, 7, 11, 13, 17]) @ drop 3 [5, 7, 11, 13, 17],
              Empty_allocation)
    \<and> inclusive_scan_over_group 4 99 3 8 [5, 7, 11, 13, 17 :: nat] Empty_allocation (+)
      = inclusive_scan_over_group 4 0 3 8 [5, 7, 11, 13, 17 :: nat] Empty_allocation (+)"
    by (rule inclusive_scan_over_group_base_case) simp_all
  then show ?thesis by simp
qed

subsection \<open>One launch of the expansion kernel\<close>

lemma expansion_group_effect:
  assumes "0 < G" "(g + 2) * G \<le> length big" "g < length small"
  shows "\<exists>big'. expansion_group G op small g big = Some big' \<and> length big' = length big
    \<and> (\<forall>i<length big. big' ! i = (if (g + 1) * G \<le> i \<and> i < (g + 2) * G
                                    then op (big ! i) (small ! g) else big ! i))"
proof -
  let ?base = "(g + 1) * G"
  let ?ps = "group_calls local_size G"
  have L: "0 < local_size" by (simp add: local_size_def)
  have items: "distinct (map fst ?ps)" "fst ` set ?ps = {0..<G}"
    by (rule group_calls_items [OF L])+
  have bound: "?base + G \<le> length big" using assms(2) by (simp add: algebra_simps)
  have inb: "?base + fst p < length big" if "p \<in> set ?ps" for p
  proof -
    have "fst p \<in> fst ` set ?ps" using that by (rule imageI)
    then show ?thesis using bound unfolding items(2) by simp
  qed
  have step: "expansion_write ?base op (small ! g) p a
      = Some (if True then a[?base + fst p := (\<lambda>p old. op old (small ! g)) p (a ! (?base + fst p))]
              else a)"
    if "p \<in> set ?ps" "length a = length big" for p and a :: "'a list"
    using inb [OF that(1)] that(2) by (cases p) (simp add: expansion_write_def)
  have dist: "distinct (map (\<lambda>p. ?base + fst p) ?ps)"
    using items(1) by (simp add: distinct_map inj_on_def)
  from fold_writes [of ?ps big "expansion_write ?base op (small ! g)" "\<lambda>p. True"
      "\<lambda>p. ?base + fst p" "\<lambda>p old. op old (small ! g)", OF step dist]
  obtain big' where big': "fold_option (expansion_write ?base op (small ! g)) ?ps big = Some big'"
      "length big' = length big"
    and new: "\<forall>p\<in>set ?ps. True \<longrightarrow> ?base + fst p < length big
        \<longrightarrow> big' ! (?base + fst p) = op (big ! (?base + fst p)) (small ! g)"
    and old: "\<forall>i. (\<forall>p\<in>set ?ps. True \<longrightarrow> ?base + fst p \<noteq> i) \<longrightarrow> big' ! i = big ! i"
    by blast
  have 1: "big' ! i = op (big ! i) (small ! g)" if "?base \<le> i" "i < (g + 2) * G" for i
  proof -
    have "i - ?base \<in> fst ` set ?ps" unfolding items(2) using that by (simp add: algebra_simps)
    then obtain p where p: "p \<in> set ?ps" "fst p = i - ?base" by auto
    then have "?base + fst p = i" using that(1) by simp
    then show ?thesis using new p(1) inb [OF p(1)] by auto
  qed
  have 2: "big' ! i = big ! i" if "\<not> (?base \<le> i \<and> i < (g + 2) * G)" for i
  proof -
    have "?base + fst p \<noteq> i" if "p \<in> set ?ps" for p
    proof -
      have "fst p \<in> fst ` set ?ps" using that by (rule imageI)
      then have "fst p < G" unfolding items(2) by simp
      then show ?thesis using \<open>\<not> (?base \<le> i \<and> i < (g + 2) * G)\<close> by (auto simp: algebra_simps)
    qed
    then show ?thesis using old by blast
  qed
  have "expansion_group G op small g big = Some big'"
    using bound assms(1,3) big'(1) by (simp add: expansion_group_def)
  then show ?thesis using big'(2) 1 2 by auto
qed

lemma expansion_groups:
  assumes "0 < G" "length big = nb * G" "nb - 1 \<le> length small" "g \<le> nb - 1"
  shows "\<exists>big'. fold_option (expansion_group G op small) [0..<g] big = Some big'
    \<and> length big' = length big
    \<and> (\<forall>i<length big. big' ! i = (if G \<le> i \<and> i < (g + 1) * G
                                    then op (big ! i) (small ! (i div G - 1)) else big ! i))"
  using assms(4)
proof (induction g)
  case 0
  show ?case by auto
next
  case (Suc g)
  then have g: "g < nb - 1" by simp
  from Suc.IH g obtain big1 where run: "fold_option (expansion_group G op small) [0..<g] big = Some big1"
    and len1: "length big1 = length big"
    and val1: "\<forall>i<length big. big1 ! i = (if G \<le> i \<and> i < (g + 1) * G
        then op (big ! i) (small ! (i div G - 1)) else big ! i)"
    by auto
  have "g + 2 \<le> nb" using g by simp
  then have bound: "(g + 2) * G \<le> length big1"
    unfolding len1 assms(2) by (rule mult_le_mono1)
  have gs: "g < length small" using g assms(3) by simp
  from expansion_group_effect [OF assms(1) bound gs, of op]
  obtain big2 where step: "expansion_group G op small g big1 = Some big2"
    and len2: "length big2 = length big1"
    and val2: "\<forall>i<length big1. big2 ! i = (if (g + 1) * G \<le> i \<and> i < (g + 2) * G
        then op (big1 ! i) (small ! g) else big1 ! i)"
    by blast
  have "big2 ! i = (if G \<le> i \<and> i < (Suc g + 1) * G
      then op (big ! i) (small ! (i div G - 1)) else big ! i)" if i: "i < length big" for i
  proof (cases "(g + 1) * G \<le> i \<and> i < (g + 2) * G")
    case True
    then have "i div G = g + 1"
      using assms(1) by (metis True div_nat_eqI mult.commute add_2_eq_Suc' Suc_eq_plus1 add_Suc_right)
    moreover have "G \<le> i" using True by (simp add: algebra_simps)
    ultimately show ?thesis using val2 val1 i len1 True by simp
  next
    case False
    then show ?thesis using val2 val1 i len1 by (auto simp: algebra_simps)
  qed
  then show ?case
    using run step len1 len2 by (simp add: fold_option_snoc)
qed

lemma div_ceil_mult:
  assumes "0 < G"
  shows "div_ceil (n * G) G = n"
proof -
  obtain g where g: "G = Suc g" using assms by (cases G) simp_all
  have "(n * Suc g + g) div Suc g = n + g div Suc g"
    by (rule div_mult_self3) simp
  then show ?thesis by (simp add: div_ceil_def g)
qed

subsection \<open>The buffers of a level\<close>

lemma big_buffer_levels: "big_buffer i bufs = levels bufs ! i"
  by (cases bufs; cases i) (simp_all add: big_buffer_def levels_def)

lemma small_buffer_levels: "snd bufs ! i = levels bufs ! Suc i"
  by (simp add: levels_def)

lemma levels_update_big: "levels (update_big_buffer i b bufs) = (levels bufs)[i := b]"
  by (cases bufs; cases i) (simp_all add: update_big_buffer_def levels_def)

lemma levels_update_small: "levels (in_out, ibufs[i := s]) = (levels (in_out, ibufs))[Suc i := s]"
  by (simp add: levels_def)

lemma length_levels: "length (levels bufs) = Suc (length (snd bufs))"
  by (simp add: levels_def)



subsection \<open>One launch of the reduction kernel\<close>

lemma interval_fold_cong:
  assumes "\<And>k. a \<le> k \<Longrightarrow> k < b \<Longrightarrow> x k = y k" "a < b"
  shows "interval_fold op x a b = interval_fold op y a b"
proof -
  have "x a = y a" using assms by simp
  moreover have "map x [Suc a..<b] = map y [Suc a..<b]"
    using assms(1) by (intro map_cong) simp_all
  ultimately show ?thesis by (simp only: interval_fold_def)
qed

lemma reduction_group_effect:
  assumes "0 < ws" "local_size mod ws = 0" "lm_fits ws G lm" "0 < G"
    and "(g + 1) * G \<le> length big" "g < length small"
  shows "\<exists>big'. reduction_group ws zero G op lm g (big, small)
        = Some (big', small[g := big' ! (g * G + (G - 1))])
    \<and> length big' = length big
    \<and> (\<forall>i<length big. \<not> (g * G \<le> i \<and> i < (g + 1) * G) \<longrightarrow> big' ! i = big ! i)
    \<and> (associative op \<longrightarrow> commutative op \<longrightarrow>
        (\<forall>i. g * G \<le> i \<and> i < (g + 1) * G \<longrightarrow>
           big' ! i = interval_fold op (nth big) (g * G) (Suc i)))"
proof -
  let ?acc = "drop (g * G) big"
  obtain m where m: "local_size = m * ws"
    using assms(2) by (auto simp: mod_eq_0_iff_dvd dvd_def mult.commute)
  have mpos: "0 < m" using m by (cases m) (simp_all add: local_size_def)
  have bound: "g * G + G \<le> length big" using assms(5) by (simp add: algebra_simps)
  then have acc: "G \<le> length ?acc" by simp
  from group_scan [OF assms(1) mpos assms(3) acc, of zero op]
  obtain acc' lm' where scan: "inclusive_scan_over_group ws zero G local_size ?acc lm op
      = Some (acc', lm')"
    and len: "length acc' = length ?acc" and frame: "drop G acc' = drop G ?acc"
    and vals: "associative op \<longrightarrow> commutative op \<longrightarrow>
        take G acc' = naive_inclusive_scan op (take G ?acc)"
    unfolding m by blast
  let ?big' = "take (g * G) big @ acc'"
  have len': "length ?big' = length big" using len bound by simp
  have last: "acc' ! (G - 1) = ?big' ! (g * G + (G - 1))"
    using bound by (simp add: nth_append)
  have run: "reduction_group ws zero G op lm g (big, small)
      = Some (?big', small[g := ?big' ! (g * G + (G - 1))])"
  proof -
    have c1: "g * G < length big \<and> g < length small" using bound assms(4,6) by simp
    have c2: "G - 1 < length acc'" using len acc assms(4) by simp
    show ?thesis
      by (simp only: reduction_group_def prod.case c1 scan option.case c2 simp_thms if_True last)
  qed
  have out: "?big' ! i = big ! i" if "i < length big" "\<not> (g * G \<le> i \<and> i < (g + 1) * G)" for i
  proof (cases "i < g * G")
    case True
    then show ?thesis using bound by (simp add: nth_append)
  next
    case False
    have ilen: "i < length big" by (rule that(1))
    have i: "g * G + G \<le> i" using False that(2) by (simp add: algebra_simps)
    then obtain d where d: "i = g * G + G + d" by (metis le_Suc_ex)
    have "acc' ! (G + d) = drop G acc' ! d" using len ilen d by simp
    also have "\<dots> = drop G ?acc ! d" by (simp only: frame)
    also have "\<dots> = big ! i" using ilen d by (simp add: ac_simps)
    finally show ?thesis using bound d by (simp add: nth_append add.assoc)
  qed
  have block: "?big' ! i = interval_fold op (nth big) (g * G) (Suc i)"
    if ac: "associative op" "commutative op" and lo: "g * G \<le> i" and hi: "i < (g + 1) * G" for i
  proof -
    obtain j where j: "i = g * G + j" using lo by (metis le_Suc_ex)
    have jG: "j < G" using hi j by (simp add: algebra_simps)
    have t: "take G ?acc = map (nth big) [g * G..<g * G + G]"
      using bound by (intro nth_equalityI) simp_all
    have "?big' ! i = take G acc' ! j" using j jG bound by (simp add: nth_append)
    also have "\<dots> = naive_inclusive_scan op (map (nth big) [g * G..<g * G + G]) ! j"
      using vals ac t by simp
    also have "\<dots> = interval_fold op (nth big) (g * G) (Suc (g * G + j))"
      by (rule naive_scan_nth_interval [OF jG])
    finally show ?thesis by (simp only: j)
  qed
  show ?thesis using run len' out block by blast
qed

lemma reduction_groups:
  assumes "0 < ws" "local_size mod ws = 0" "\<And>g. lm_fits ws G (lm g)" "0 < G"
    and "length big = nb * G" "nb \<le> length small" "g \<le> nb"
  shows "\<exists>big' small'. fold_option (\<lambda>g. reduction_group ws zero G op (lm g) g) [0..<g] (big, small)
        = Some (big', small')
    \<and> length big' = length big \<and> length small' = length small
    \<and> (\<forall>i<length big. g * G \<le> i \<longrightarrow> big' ! i = big ! i)
    \<and> (\<forall>k<length small. g \<le> k \<longrightarrow> small' ! k = small ! k)
    \<and> (associative op \<longrightarrow> commutative op \<longrightarrow>
        (\<forall>i<g * G. big' ! i = interval_fold op (nth big) (i div G * G) (Suc i))
        \<and> (\<forall>k<g. small' ! k = interval_fold op (nth big) (k * G) (Suc k * G)))"
  using assms(7)
proof (induction g)
  case 0
  show ?case by simp
next
  case (Suc g)
  then have g: "g < nb" by simp
  from Suc.IH g obtain big1 small1 where
    run: "fold_option (\<lambda>g. reduction_group ws zero G op (lm g) g) [0..<g] (big, small)
        = Some (big1, small1)"
    and len1: "length big1 = length big" "length small1 = length small"
    and rest1: "\<forall>i<length big. g * G \<le> i \<longrightarrow> big1 ! i = big ! i"
      "\<forall>k<length small. g \<le> k \<longrightarrow> small1 ! k = small ! k"
    and vals1: "associative op \<longrightarrow> commutative op \<longrightarrow>
        (\<forall>i<g * G. big1 ! i = interval_fold op (nth big) (i div G * G) (Suc i))
        \<and> (\<forall>k<g. small1 ! k = interval_fold op (nth big) (k * G) (Suc k * G))"
    by auto
  have "(g + 1) * G \<le> nb * G" using g by (intro mult_le_mono1) simp
  then have bound: "(g + 1) * G \<le> length big1" by (simp only: len1 assms(5))
  have gs: "g < length small1" using g assms(6) len1 by simp
  from reduction_group_effect [OF assms(1,2,3,4) bound gs, of zero op]
  obtain big2 where step: "reduction_group ws zero G op (lm g) g (big1, small1)
        = Some (big2, small1[g := big2 ! (g * G + (G - 1))])"
    and len2: "length big2 = length big1"
    and rest2: "\<forall>i<length big1. \<not> (g * G \<le> i \<and> i < (g + 1) * G) \<longrightarrow> big2 ! i = big1 ! i"
    and vals2: "associative op \<longrightarrow> commutative op \<longrightarrow>
        (\<forall>i. g * G \<le> i \<and> i < (g + 1) * G \<longrightarrow>
           big2 ! i = interval_fold op (nth big1) (g * G) (Suc i))"
    by blast
  let ?small2 = "small1[g := big2 ! (g * G + (G - 1))]"
  have same: "interval_fold op (nth big1) (g * G) (Suc i) = interval_fold op (nth big) (g * G) (Suc i)"
    if "g * G \<le> i" "i < (g + 1) * G" for i
  proof (rule interval_fold_cong)
    fix k assume "g * G \<le> k" "k < Suc i"
    then show "big1 ! k = big ! k" using rest1(1) that(2) bound len1 by simp
  next
    show "g * G < Suc i" using that(1) by simp
  qed
  have a: "\<forall>i<length big. Suc g * G \<le> i \<longrightarrow> big2 ! i = big ! i"
    using rest2 rest1(1) len1 by (auto simp: algebra_simps)
  have b: "\<forall>k<length small. Suc g \<le> k \<longrightarrow> ?small2 ! k = small ! k"
    using rest1(2) len1 by simp
  have c: "big2 ! i = interval_fold op (nth big) (i div G * G) (Suc i)"
    if ac: "associative op" "commutative op" and i: "i < Suc g * G" for i
  proof (cases "i < g * G")
    case True
    then have "\<not> (g * G \<le> i \<and> i < (g + 1) * G)" by simp
    moreover have "i < length big1" using True bound by simp
    ultimately have "big2 ! i = big1 ! i" using rest2 by blast
    then show ?thesis using vals1 ac True by simp
  next
    case False
    then have range: "g * G \<le> i" "i < (g + 1) * G" using i by simp_all
    then have "i div G = g"
      using assms(4) by (metis div_nat_eqI mult.commute Suc_eq_plus1)
    then show ?thesis using vals2 ac range same by simp
  qed
  have d: "?small2 ! k = interval_fold op (nth big) (k * G) (Suc k * G)"
    if ac: "associative op" "commutative op" and k: "k < Suc g" for k
  proof (cases "k = g")
    case True
    have r: "g * G \<le> g * G + (G - 1)" "g * G + (G - 1) < (g + 1) * G"
      using assms(4) by simp_all
    have e: "Suc (g * G + (G - 1)) = Suc g * G" using assms(4) by simp
    have "big2 ! (g * G + (G - 1)) = interval_fold op (nth big1) (g * G) (Suc (g * G + (G - 1)))"
      using vals2 ac r by blast
    also have "\<dots> = interval_fold op (nth big) (g * G) (Suc (g * G + (G - 1)))"
      by (rule same [OF r])
    finally have "big2 ! (g * G + (G - 1)) = interval_fold op (nth big) (g * G) (Suc g * G)"
      by (simp only: e)
    then show ?thesis using True gs by simp
  next
    case False
    then show ?thesis using vals1 ac k by simp
  qed
  have "fold_option (\<lambda>g. reduction_group ws zero G op (lm g) g) [0..<Suc g] (big, small)
        = Some (big2, ?small2)"
    by (simp add: fold_option_snoc run step)
  then show ?case
    using len1 len2 a b c d by (intro exI [of _ big2] exI [of _ ?small2]) simp
qed

subsection \<open>The launches on the list of buffers\<close>

lemma expansion_level_effect:
  assumes "0 < G" "length (levels bufs ! ii) = nb * G" "0 < nb"
    and "nb - 1 \<le> length (levels bufs ! Suc ii)"
  shows "\<exists>big'. expansion_level G op ii bufs = Some (update_big_buffer ii big' bufs)
     \<and> length big' = nb * G
     \<and> (\<forall>i<nb * G. big' ! i = (if G \<le> i
           then op (levels bufs ! ii ! i) (levels bufs ! Suc ii ! (i div G - 1))
           else levels bufs ! ii ! i))"
proof -
  let ?big = "levels bufs ! ii"
  let ?small = "levels bufs ! Suc ii"
  from expansion_groups [OF assms(1,2,4) order_refl, of op]
  obtain big' where run: "fold_option (expansion_group G op ?small) [0..<nb - 1] ?big = Some big'"
    and len: "length big' = length ?big"
    and vals: "\<forall>i<length ?big. big' ! i = (if G \<le> i \<and> i < (nb - 1 + 1) * G
        then op (?big ! i) (?small ! (i div G - 1)) else ?big ! i)"
    by blast
  have groups: "div_ceil (length ?big) G = nb"
    unfolding assms(2) by (rule div_ceil_mult [OF assms(1)])
  have launch: "expansion_level G op ii bufs = Some (update_big_buffer ii big' bufs)"
    using assms(3)
    by (simp add: expansion_level_def Let_def big_buffer_levels small_buffer_levels groups run
        del: One_nat_def)
  show ?thesis
    using launch len vals assms(2,3) by auto
qed

lemma reduction_level_effect:
  assumes "0 < ws" "local_size mod ws = 0" "\<And>i g. lm_fits ws G (lm i g)" "0 < G"
    and "length (levels bufs ! i) = nb * G" "nb \<le> length (levels bufs ! Suc i)"
  shows "\<exists>bufs' big' small'. reduction_level ws zero G op lm junk i bufs = Some bufs'
    \<and> levels bufs' = (levels bufs)[i := big', Suc i := small']
    \<and> length big' = nb * G \<and> length small' = length (levels bufs ! Suc i)
    \<and> (associative op \<longrightarrow> commutative op \<longrightarrow>
        (\<forall>k<nb * G. big' ! k = interval_fold op (nth (levels bufs ! i)) (k div G * G) (Suc k))
        \<and> (\<forall>k<nb. small' ! k = interval_fold op (nth (levels bufs ! i)) (k * G) (Suc k * G)))"
proof -
  let ?big = "levels bufs ! i"
  let ?small = "map (junk i) [0..<length (levels bufs ! Suc i)]"
  have slots: "nb \<le> length ?small" using assms(6) by simp
  from reduction_groups [where lm = "lm i" and zero = zero and op = op,
      OF assms(1,2) assms(3) assms(4,5) slots order_refl]
  obtain big' small' where
    run: "fold_option (\<lambda>g. reduction_group ws zero G op (lm i g) g) [0..<nb] (?big, ?small)
        = Some (big', small')"
    and len: "length big' = length ?big" "length small' = length ?small"
    and vals: "associative op \<longrightarrow> commutative op \<longrightarrow>
        (\<forall>k<nb * G. big' ! k = interval_fold op (nth ?big) (k div G * G) (Suc k))
        \<and> (\<forall>k<nb. small' ! k = interval_fold op (nth ?big) (k * G) (Suc k * G))"
    by blast
  have groups: "div_ceil (length ?big) G = nb"
    unfolding assms(5) by (rule div_ceil_mult [OF assms(4)])
  obtain in_out ibufs where upd: "update_big_buffer i big' bufs = (in_out, ibufs)"
    by (cases "update_big_buffer i big' bufs")
  have launch: "reduction_level ws zero G op lm junk i bufs = Some (in_out, ibufs[i := small'])"
    by (simp add: reduction_level_def Let_def big_buffer_levels small_buffer_levels groups run upd)
  have "levels (in_out, ibufs[i := small']) = (levels bufs)[i := big', Suc i := small']"
    unfolding levels_update_small upd [symmetric] levels_update_big ..
  then show ?thesis
    using launch len vals assms(5) by auto
qed

subsection \<open>Reduction up the chain, expansion down again\<close>

lemma naive_scan_nth:
  assumes "k < length xs"
  shows "naive_inclusive_scan op xs ! k = interval_fold op (nth xs) 0 (Suc k)"
  using naive_scan_nth_interval [OF assms, of op "nth xs" 0] by (simp add: map_nth)

lemma map_length_update:
  assumes "i < length xs \<longrightarrow> length b = length (xs ! i)"
  shows "map length (xs[i := b]) = map length xs"
proof (cases "i < length xs")
  case True
  then have "length (xs[i := b] ! k) = length (xs ! k)" if "k < length xs" for k
    using assms that by (cases "k = i") simp_all
  then show ?thesis by (intro nth_equalityI) simp_all
next
  case False
  then have "xs[i := b] = xs" by (simp add: list_update_beyond)
  then show ?thesis by (simp only:)
qed

lemma fold_option_single: "fold_option f [x] s = f x s"
  by (simp add: fold_option_Cons)

lemma hierarchy_levels:
  assumes "0 < ws" "local_size mod ws = 0" "\<And>i g. lm_fits ws G (lm i g)" "0 < G"
    and "length (snd bufs) = len" "j < len"
    and "level_sizes_ok G (map length (drop j (levels bufs)))"
  shows "\<exists>bufs'. Option.bind (fold_option (reduction_level ws zero G op lm junk) [j..<len] bufs)
            (fold_option (expansion_level G op) (map (\<lambda>i. len - 1 - i) [1..<len - j]))
          = Some bufs'
     \<and> map length (levels bufs') = map length (levels bufs)
     \<and> take j (levels bufs') = take j (levels bufs)
     \<and> (associative op \<longrightarrow> commutative op \<longrightarrow>
          levels bufs' ! j = naive_inclusive_scan op (levels bufs ! j))"
  using assms(5,6,7)
proof (induction "len - 1 - j" arbitrary: j bufs)
  case 0
  let ?ls = "levels bufs"
  have j: "Suc j = len" using 0 by simp
  have len_ls: "length ?ls = Suc len" using "0.prems"(1) by (simp add: length_levels)
  have "drop j ?ls = ?ls ! j # drop (Suc j) ?ls"
    using len_ls j by (intro Cons_nth_drop_Suc [symmetric]) simp
  moreover have "drop (Suc j) ?ls = ?ls ! Suc j # drop (Suc (Suc j)) ?ls"
    using len_ls j by (intro Cons_nth_drop_Suc [symmetric]) simp
  ultimately have "drop j ?ls = [?ls ! j, ?ls ! Suc j]" using len_ls j by simp
  then have sizes: "length (?ls ! j) = G" "1 \<le> length (?ls ! Suc j)"
    using "0.prems"(3) by simp_all
  from reduction_level_effect [where lm = lm and bufs = bufs and i = j and nb = 1
      and zero = zero and op = op and junk = junk, OF assms(1,2,3,4)] sizes
  obtain bufs1 big' small' where red: "reduction_level ws zero G op lm junk j bufs = Some bufs1"
    and ls1: "levels bufs1 = ?ls[j := big', Suc j := small']"
    and lens: "length big' = G" "length small' = length (?ls ! Suc j)"
    and vals: "associative op \<longrightarrow> commutative op \<longrightarrow>
        (\<forall>k<G. big' ! k = interval_fold op (nth (?ls ! j)) (k div G * G) (Suc k))"
    by auto
  have run: "Option.bind (fold_option (reduction_level ws zero G op lm junk) [j..<len] bufs)
            (fold_option (expansion_level G op) (map (\<lambda>i. len - 1 - i) [1..<len - j]))
          = Some bufs1"
    using j by (simp add: j [symmetric] fold_option_single red)
  have a: "map length (levels bufs1) = map length ?ls"
    unfolding ls1 using lens sizes
    by (simp add: map_length_update)
  have b: "take j (levels bufs1) = take j ?ls"
    unfolding ls1 by simp
  have c: "levels bufs1 ! j = naive_inclusive_scan op (?ls ! j)"
    if ac: "associative op" "commutative op"
  proof -
    have "levels bufs1 ! j = big'" unfolding ls1 using len_ls j by simp
    moreover have "big' = naive_inclusive_scan op (?ls ! j)"
    proof (rule nth_equalityI)
      show "length big' = length (naive_inclusive_scan op (?ls ! j))"
        using lens sizes by simp
    next
      fix k assume "k < length big'"
      then have k: "k < G" using lens by simp
      then have "big' ! k = interval_fold op (nth (?ls ! j)) 0 (Suc k)"
        using vals ac by simp
      then show "big' ! k = naive_inclusive_scan op (?ls ! j) ! k"
        using k sizes by (simp add: naive_scan_nth)
    qed
    ultimately show ?thesis by simp
  qed
  show ?case using run a b c by blast
next
  case (Suc d)
  let ?ls = "levels bufs"
  let ?x = "nth (?ls ! j)"
  let ?red = "reduction_level ws zero G op lm junk"
  let ?exp = "expansion_level G op"
  have j: "Suc j < len" "len - 1 - Suc j = d" using Suc.hyps(2) by simp_all
  have len_ls: "length ?ls = Suc len" using Suc.prems(1) by (simp add: length_levels)
  have d1: "drop j ?ls = ?ls ! j # drop (Suc j) ?ls"
    using len_ls j by (intro Cons_nth_drop_Suc [symmetric]) simp
  have d2: "drop (Suc j) ?ls = ?ls ! Suc j # drop (Suc (Suc j)) ?ls"
    using len_ls j by (intro Cons_nth_drop_Suc [symmetric]) simp
  have d3: "drop (Suc (Suc j)) ?ls = ?ls ! Suc (Suc j) # drop (Suc (Suc (Suc j))) ?ls"
    using len_ls j by (intro Cons_nth_drop_Suc [symmetric]) simp
  have ok: "length (?ls ! j) mod G = 0" "0 < length (?ls ! j)"
    "length (?ls ! j) div G \<le> length (?ls ! Suc j)"
    "level_sizes_ok G (map length (drop (Suc j) ?ls))"
    using Suc.prems(3) unfolding d1 d2 d3 by simp_all
  define nb where "nb = length (?ls ! j) div G"
  have nbG: "length (?ls ! j) = nb * G"
    using ok(1) div_mult_mod_eq [of "length (?ls ! j)" G] by (simp add: nb_def)
  have nbpos: "0 < nb" using ok(2) nbG by (cases nb) simp_all
  have nbs: "nb \<le> length (?ls ! Suc j)" using ok(3) by (simp add: nb_def)
  from reduction_level_effect [where lm = lm and zero = zero and op = op and junk = junk,
      OF assms(1,2,3,4) nbG nbs]
  obtain bufs1 big1 small1 where red: "?red j bufs = Some bufs1"
    and ls1: "levels bufs1 = ?ls[j := big1, Suc j := small1]"
    and lens1: "length big1 = nb * G" "length small1 = length (?ls ! Suc j)"
    and vals1: "associative op \<longrightarrow> commutative op \<longrightarrow>
        (\<forall>k<nb * G. big1 ! k = interval_fold op ?x (k div G * G) (Suc k))
        \<and> (\<forall>k<nb. small1 ! k = interval_fold op ?x (k * G) (Suc k * G))"
    by blast
  have sizes1: "map length (levels bufs1) = map length ?ls"
    unfolding ls1 using lens1 nbG by (simp add: map_length_update)
  then have len1: "length (snd bufs1) = len"
    using len_ls by (metis length_levels length_map nat.inject)
  have "map length (drop (Suc j) (levels bufs1)) = map length (drop (Suc j) ?ls)"
    using sizes1 by (simp only: drop_map [symmetric])
  then have ok1: "level_sizes_ok G (map length (drop (Suc j) (levels bufs1)))"
    using ok(4) by simp
  from Suc.hyps(1) [OF j(2) [symmetric] len1 j(1) ok1]
  obtain bufs2 where mid: "Option.bind (fold_option ?red [Suc j..<len] bufs1)
            (fold_option ?exp (map (\<lambda>i. len - 1 - i) [1..<len - Suc j])) = Some bufs2"
    and sizes2: "map length (levels bufs2) = map length (levels bufs1)"
    and keep2: "take (Suc j) (levels bufs2) = take (Suc j) (levels bufs1)"
    and vals2: "associative op \<longrightarrow> commutative op \<longrightarrow>
        levels bufs2 ! Suc j = naive_inclusive_scan op (levels bufs1 ! Suc j)"
    by blast
  have big2: "levels bufs2 ! j = big1"
  proof -
    have "levels bufs2 ! j = take (Suc j) (levels bufs2) ! j" by simp
    also have "\<dots> = levels bufs1 ! j" by (simp only: keep2) simp
    also have "\<dots> = big1" unfolding ls1 using len_ls j by simp
    finally show ?thesis .
  qed
  have small1: "levels bufs1 ! Suc j = small1" unfolding ls1 using len_ls j by simp
  have len_small2: "length (levels bufs2 ! Suc j) = length (?ls ! Suc j)"
  proof -
    have "map length (levels bufs2) ! Suc j = map length ?ls ! Suc j"
      by (simp only: sizes2 sizes1)
    moreover have "Suc j < length (levels bufs2)" "Suc j < length ?ls"
      using len_ls j sizes2 sizes1 by (metis length_map less_Suc_eq)+
    ultimately show ?thesis by simp
  qed
  have e2: "length (levels bufs2 ! j) = nb * G" using big2 lens1 by simp
  have e4: "nb - 1 \<le> length (levels bufs2 ! Suc j)" using nbs len_small2 by simp
  from expansion_level_effect [OF assms(4) e2 nbpos e4, of op]
  obtain big3 where exp: "?exp j bufs2 = Some (update_big_buffer j big3 bufs2)"
    and len3: "length big3 = nb * G"
    and vals3: "\<forall>i<nb * G. big3 ! i = (if G \<le> i
           then op (levels bufs2 ! j ! i) (levels bufs2 ! Suc j ! (i div G - 1))
           else levels bufs2 ! j ! i)"
    by blast
  let ?bufs3 = "update_big_buffer j big3 bufs2"
  have ls3: "levels ?bufs3 = (levels bufs2)[j := big3]" by (rule levels_update_big)
  have reds: "[j..<len] = j # [Suc j..<len]" using j by (simp add: upt_conv_Cons)
  have "[1..<len - j] = [1..<len - Suc j] @ [len - Suc j]"
    using j by (metis Suc_diff_Suc Suc_lessD upt_Suc_append Suc_leI diff_is_0_eq' le_add1 linorder_not_less plus_1_eq_Suc zero_less_diff One_nat_def)
  then have exps: "map (\<lambda>i. len - 1 - i) [1..<len - j]
      = map (\<lambda>i. len - 1 - i) [1..<len - Suc j] @ [j]"
    using j by simp
  have run: "Option.bind (fold_option ?red [j..<len] bufs)
            (fold_option ?exp (map (\<lambda>i. len - 1 - i) [1..<len - j])) = Some ?bufs3"
  proof -
    obtain r where r: "fold_option ?red [Suc j..<len] bufs1 = Some r"
      "fold_option ?exp (map (\<lambda>i. len - 1 - i) [1..<len - Suc j]) r = Some bufs2"
      using mid by (cases "fold_option ?red [Suc j..<len] bufs1") simp_all
    show ?thesis
      unfolding reds exps
      by (simp only: fold_option_Cons red Option.bind.simps r fold_option_snoc exp)
  qed
  have a: "map length (levels ?bufs3) = map length ?ls"
    unfolding ls3 using len3 e2 sizes2 sizes1 by (simp add: map_length_update)
  have b: "take j (levels ?bufs3) = take j ?ls"
  proof -
    have "take j (levels ?bufs3) = take j (levels bufs2)" unfolding ls3 by simp
    also have "\<dots> = take j (take (Suc j) (levels bufs2))" by (simp add: min_def)
    also have "\<dots> = take j (take (Suc j) (levels bufs1))" by (simp only: keep2)
    also have "\<dots> = take j ?ls" unfolding ls1 by (simp add: min_def)
    finally show ?thesis .
  qed
  have c: "levels ?bufs3 ! j = naive_inclusive_scan op (?ls ! j)"
    if ac: "associative op" "commutative op"
  proof -
    have lj: "j < length (levels bufs2)"
      using len_ls j sizes2 sizes1 by (metis length_map less_Suc_eq Suc_lessD)
    have "levels ?bufs3 ! j = big3" unfolding ls3 using lj by simp
    moreover have "big3 = naive_inclusive_scan op (?ls ! j)"
    proof (rule nth_equalityI)
      show "length big3 = length (naive_inclusive_scan op (?ls ! j))"
        using len3 nbG by simp
    next
      fix i assume "i < length big3"
      then have i: "i < nb * G" using len3 by simp
      have spec: "naive_inclusive_scan op (?ls ! j) ! i = interval_fold op ?x 0 (Suc i)"
        using i nbG by (simp add: naive_scan_nth)
      have fine: "big1 ! i = interval_fold op ?x (i div G * G) (Suc i)"
        using vals1 ac i by simp
      show "big3 ! i = naive_inclusive_scan op (?ls ! j) ! i"
      proof (cases "G \<le> i")
        case False
        then have "i div G = 0" by simp
        then show ?thesis using vals3 i False fine big2 spec by simp
      next
        case True
        have c_lt: "i div G < nb" using i assms(4) by (simp add: less_mult_imp_div_less)
        have pos: "0 < i div G" using True assms(4) by (simp add: div_greater_zero_iff)
        then have k: "i div G - 1 < nb" "Suc (i div G - 1) = i div G" using c_lt by simp_all
        have tk: "take nb small1
            = map (\<lambda>c. interval_fold op ?x (c * G) (Suc c * G)) [0..<nb]"
          using vals1 ac nbs lens1 by (intro nth_equalityI) simp_all
        have "levels bufs2 ! Suc j ! (i div G - 1)
            = take nb (naive_inclusive_scan op small1) ! (i div G - 1)"
          using vals2 ac small1 k by simp
        also have "\<dots> = naive_inclusive_scan op
            (map (\<lambda>c. interval_fold op ?x (c * G) (Suc c * G)) [0..<nb]) ! (i div G - 1)"
          by (simp only: take_naive_scan tk)
        also have "\<dots> = interval_fold op ?x 0 (i div G * G)"
          using totals_scan [OF ac(1) assms(4) k(1), of ?x] by (simp only: k(2))
        finally have carry: "levels bufs2 ! Suc j ! (i div G - 1)
            = interval_fold op ?x 0 (i div G * G)" .
        have "big3 ! i = op (interval_fold op ?x (i div G * G) (Suc i))
            (interval_fold op ?x 0 (i div G * G))"
          using vals3 i True fine big2 carry by simp
        also have "\<dots> = interval_fold op ?x 0 (Suc i)"
          by (rule carry_combine [OF ac assms(4) True])
        finally show ?thesis using spec by simp
      qed
    qed
    ultimately show ?thesis by simp
  qed
  show ?case using run a b c by blast
qed

subsection \<open>The chain of the allocation fits the scan\<close>

lemma ceil_multiple: "ceil n G mod G = 0" "0 < G \<Longrightarrow> ceil n G div G = div_ceil n G"
  by (simp_all add: ceil_def)

lemma ceil_ge:
  assumes "0 < G"
  shows "n \<le> ceil n G"
proof -
  define q where "q = (n + G - 1) div G"
  define r where "r = (n + G - 1) mod G"
  have "q * G + r = n + G - 1" by (simp add: q_def r_def)
  moreover have "r < G" using assms by (simp add: r_def)
  ultimately have "n \<le> q * G" by linarith
  then show ?thesis by (simp add: ceil_def div_ceil_def q_def)
qed

lemma div_ceil_one:
  assumes "0 < G"
  shows "div_ceil (Suc 0) G = Suc 0"
  using div_ceil_small [of 1 G] assms by simp

lemma level_sizes_chain:
  assumes "2 \<le> G"
  shows "0 < m \<Longrightarrow> \<forall>k<m. 1 < unrounded_count G n k \<Longrightarrow> unrounded_count G n m \<le> 1
    \<Longrightarrow> a mod G = 0 \<Longrightarrow> a div G = div_ceil n G
    \<Longrightarrow> level_sizes_ok G (a # map (\<lambda>k. ceil (unrounded_count G n (Suc k)) G) [0..<m])"
proof (induction m arbitrary: n a)
  case 0
  then show ?case by simp
next
  case (Suc m)
  let ?n = "div_ceil n G"
  have G: "0 < G" using assms by simp
  have n: "1 < n" using Suc.prems(2) by force
  have npos: "0 < ?n" using G n by (intro div_ceil_pos) simp_all
  have apos: "0 < a"
    using Suc.prems(5) npos by (cases a) simp_all
  show ?case
  proof (cases m)
    case 0
    have "?n \<le> 1" using Suc.prems(3) 0 by simp
    then have one: "?n = 1" using npos by simp
    have "a = a div G * G" using Suc.prems(4) div_mult_mod_eq [of a G] by simp
    then have "a = G" using Suc.prems(5) one by simp
    then show ?thesis
      using 0 one G by (simp add: ceil_def div_ceil_one)
  next
    case (Suc m')
    let ?rest = "map (\<lambda>k. ceil (unrounded_count G ?n (Suc k)) G) [0..<m]"
    have shift: "map (\<lambda>k. ceil (unrounded_count G n (Suc k)) G) [0..<Suc m]
        = ceil ?n G # ?rest"
      by (simp add: upt_rec [of 0 "Suc m"] map_Suc_upt [symmetric] unrounded_count_Suc
          del: upt_Suc unrounded_count.simps(2))
    have 1: "\<forall>k<m. 1 < unrounded_count G ?n k"
      using Suc.prems(2) by (auto simp: unrounded_count_Suc [symmetric] simp del: unrounded_count.simps(2))
    have 2: "unrounded_count G ?n m \<le> 1"
      using Suc.prems(3) by (simp add: unrounded_count_Suc del: unrounded_count.simps(2))
    have ok: "level_sizes_ok G (ceil ?n G # ?rest)"
      using Suc by (intro Suc.IH 1 2 ceil_multiple G) simp
    obtain v va where rest: "?rest = v # va"
      using Suc by (simp add: upt_rec [of 0 "Suc m'"] del: upt_Suc)
    have "a div G \<le> ceil ?n G" using Suc.prems(5) ceil_ge [OF G, of ?n] by simp
    then show ?thesis
      unfolding shift using ok Suc.prems(4) apos unfolding rest by simp
  qed
qed

lemma allocate_fits:
  assumes "2 \<le> G" "N mod G = 0" "hierarchical_inclusive_scan_allocate G N = Some chain"
  shows "if N = 0 then chain = [] else level_sizes_ok G (N # chain)"
proof -
  from allocate_loop_result [OF assms(1), of N "[]"]
  obtain m where m:
    "hierarchical_inclusive_scan_allocate_loop G N []
       = Some (map (\<lambda>k. ceil (unrounded_count G N (Suc k)) G) [0..<m])"
    "\<forall>k<m. 1 < unrounded_count G N k" "unrounded_count G N m \<le> 1"
    by auto
  have chain: "chain = map (\<lambda>k. ceil (unrounded_count G N (Suc k)) G) [0..<m]"
    using assms(2,3) m(1) by (simp add: hierarchical_inclusive_scan_allocate_def)
  show ?thesis
  proof (cases "N = 0")
    case True
    then have "m = 0" using m(2) by (cases m) auto
    then show ?thesis using True chain by simp
  next
    case False
    have G: "0 < G" using assms(1) by simp
    have "N = N div G * G" using assms(2) div_mult_mod_eq [of N G] by simp
    then have dc: "N div G = div_ceil N G"
      using div_ceil_mult [OF G, of "N div G"] by simp
    have "G \<le> N" using False assms(2) G by (metis mod_less not_le_imp_less neq0_conv)
    then have "1 < N" using assms(1) by simp
    then have "0 < m" using m(3) by (cases m) simp_all
    then show ?thesis
      using False level_sizes_chain [OF assms(1) _ m(2,3) assms(2) dc] chain by simp
  qed
qed

lemma layout_fits:
  "inclusive_scan_local_allocation ws R = Some (layout_of lm) \<Longrightarrow> lm_fits ws R lm"
proof (induction lm arbitrary: R)
  case Empty_allocation
  then show ?case
    by (subst (asm) inclusive_scan_local_allocation.simps)
      (auto split: if_splits simp: Option.bind_eq_Some_conv)
next
  case (Allocation m n)
  from Allocation.prems have "ws < R
      \<and> inclusive_scan_local_allocation ws (div_ceil R ws) = Some (layout_of n)
      \<and> length m = div_ceil R ws"
    by (subst (asm) inclusive_scan_local_allocation.simps)
      (auto split: if_splits simp: Option.bind_eq_Some_conv)
  then show ?case using Allocation.IH by simp
qed

subsection \<open>The whole scan\<close>

lemma hierarchical_scan_result:
  assumes "0 < ws" "local_size mod ws = 0" "\<And>i g. lm_fits ws G (lm i g)" "2 \<le> G"
    and "length in_out mod G = 0"
    and "hierarchical_inclusive_scan_allocate G (length in_out) = Some (map length ibufs)"
  shows "\<exists>in_out' ibufs'. hierarchical_inclusive_scan ws zero G lm junk (in_out, ibufs) op
        = Some (in_out', ibufs')
    \<and> length in_out' = length in_out \<and> map length ibufs' = map length ibufs
    \<and> (associative op \<longrightarrow> commutative op \<longrightarrow> in_out' = naive_inclusive_scan op in_out)"
proof (cases "length in_out = 0")
  case True
  then have "ibufs = []" using allocate_fits [OF assms(4,5,6)] by simp
  then show ?thesis using True
    by (simp add: hierarchical_inclusive_scan_def reduction_launches_def expansion_launches_def)
next
  case False
  let ?bufs = "(in_out, ibufs)"
  let ?len = "length ibufs"
  have G: "0 < G" using assms(4) by simp
  have ok: "level_sizes_ok G (map length (drop 0 (levels ?bufs)))"
    using allocate_fits [OF assms(4,5,6)] False by (simp add: levels_def)
  then have len: "0 < ?len" by (cases ibufs) (simp_all add: levels_def)
  have l: "length (snd ?bufs) = ?len" by simp
  from hierarchy_levels [where lm = lm and zero = zero and op = op and junk = junk,
      OF assms(1,2,3) G l len ok]
  obtain bufs' where run: "Option.bind
          (fold_option (reduction_level ws zero G op lm junk) [0..<?len] ?bufs)
          (fold_option (expansion_level G op) (map (\<lambda>i. ?len - 1 - i) [1..<?len - 0]))
        = Some bufs'"
    and sizes: "map length (levels bufs') = map length (levels ?bufs)"
    and vals: "associative op \<longrightarrow> commutative op \<longrightarrow>
        levels bufs' ! 0 = naive_inclusive_scan op (levels ?bufs ! 0)"
    by blast
  obtain in_out' ibufs' where b: "bufs' = (in_out', ibufs')" by (cases bufs')
  from run obtain r where r1: "fold_option (reduction_level ws zero G op lm junk) [0..<?len] ?bufs
        = Some r"
    and r2: "fold_option (expansion_level G op) (map (\<lambda>i. ?len - 1 - i) [1..<?len - 0]) r
        = Some bufs'"
    by (auto simp only: Option.bind_eq_Some_conv)
  have "hierarchical_inclusive_scan ws zero G lm junk ?bufs op = Some (in_out', ibufs')"
    by (simp only: hierarchical_inclusive_scan_def reduction_launches_def
        expansion_launches_def snd_conv r1 option.case
        r2 [unfolded diff_zero] b [symmetric])
  then show ?thesis
    using sizes vals unfolding b by (simp add: levels_def)
qed

section \<open>The hierarchical scan\<close>

lemma allocate_sizes_multiple:
  assumes "2 \<le> G" "hierarchical_inclusive_scan_allocate G N = Some chain" "s \<in> set chain"
  shows "s mod G = 0"
proof -
  from allocate_loop_result [OF assms(1), of N "[]"]
  obtain m where "hierarchical_inclusive_scan_allocate_loop G N []
       = Some (map (\<lambda>k. ceil (unrounded_count G N (Suc k)) G) [0..<m])"
    by auto
  then have "chain = map (\<lambda>k. ceil (unrounded_count G N (Suc k)) G) [0..<m]"
    using assms(2) by (simp add: hierarchical_inclusive_scan_allocate_def split: if_splits)
  then show ?thesis using assms(3) by (auto simp: ceil_multiple)
qed

lemma div_ceil_exact:
  assumes "0 < G" "s mod G = 0"
  shows "div_ceil s G = s div G"
proof -
  have "s = s div G * G" using assms(2) div_mult_mod_eq [of s G] by simp
  then show ?thesis using div_ceil_mult [OF assms(1), of "s div G"] by simp
qed

text \<open>
  C1, as amended. For an in/out buffer whose length is a multiple of the granularity,
  intermediate buffers of the sizes that \<open>hierarchical_inclusive_scan_allocate\<close>
  returns (with any contents), local memories of the type the kernel declares (with
  any contents) and an operator that is associative and commutative, the scan leaves
  in the in/out buffer the naive sequential inclusive scan of its input.
\<close>

theorem hierarchical_inclusive_scan_correct:
  assumes "0 < warp_size" and "local_size mod warp_size = 0"
    and "\<And>i g. inclusive_scan_local_allocation warp_size granularity = Some (layout_of (lm i g))"
    and "2 \<le> granularity" and "length in_out mod granularity = 0"
    and "hierarchical_inclusive_scan_allocate granularity (length in_out) = Some (map length ibufs)"
    and "associative op" and "commutative op"
  shows "\<exists>ibufs'. hierarchical_inclusive_scan warp_size zero granularity lm discarded (in_out, ibufs) op
      = Some (naive_inclusive_scan op in_out, ibufs')"
proof -
  have "lm_fits warp_size granularity (lm i g)" for i g
    by (rule layout_fits [OF assms(3)])
  from hierarchical_scan_result [where lm = lm and zero = zero and op = op and junk = discarded,
      OF assms(1,2) this assms(4,5,6)]
  show ?thesis using assms(7,8) by blast
qed

theorem hierarchical_inclusive_scan_correct_witness:
  "hierarchical_inclusive_scan 2 0 4 (\<lambda>i g. Allocation [7, 7] Empty_allocation)
      (\<lambda>i k. 9) ([1, 2, 3, 4, 5, 6, 7, 8 :: nat], [[9, 9, 9, 9], [9, 9, 9, 9]]) (+)
    = Some ([1, 3, 6, 10, 15, 21, 28, 36], [[10, 36, 45, 54], [54, 9, 9, 9]])"
proof -
  have "\<exists>ibufs'. hierarchical_inclusive_scan 2 0 4 (\<lambda>i g. Allocation [7, 7] Empty_allocation)
      (\<lambda>i k. 9) ([1, 2, 3, 4, 5, 6, 7, 8 :: nat], [[9, 9, 9, 9], [9, 9, 9, 9]]) (+)
    = Some (naive_inclusive_scan (+) [1, 2, 3, 4, 5, 6, 7, 8], ibufs')"
    by (rule hierarchical_inclusive_scan_correct)
      (simp_all add: local_size_def inclusive_scan_local_allocation.simps div_ceil_def ceil_def
        hierarchical_inclusive_scan_allocate_def hierarchical_inclusive_scan_allocate_loop.simps
        associative_def commutative_def)
  moreover have "hierarchical_inclusive_scan 2 0 4 (\<lambda>i g. Allocation [7, 7] Empty_allocation)
      (\<lambda>i k. 9) ([1, 2, 3, 4, 5, 6, 7, 8 :: nat], [[9, 9, 9, 9], [9, 9, 9, 9]]) (+)
    = Some ([1, 3, 6, 10, 15, 21, 28, 36], [[10, 36, 45, 54], [54, 9, 9, 9]])"
    by code_simp
  ultimately show ?thesis by blast
qed

text \<open>
  C1 as stated fails for an operator that is associative, has the padding value 0 as
  identity and is not commutative: the carry is the right operand of \<open>op\<close>, in the
  group-local scan and in the expansion kernel alike.
\<close>

theorem hierarchical_inclusive_scan_noncommutative_counterexample:
  "associative first_nonzero
   \<and> (\<forall>a. first_nonzero 0 a = a \<and> first_nonzero a 0 = a)
   \<and> hierarchical_inclusive_scan_allocate 4 8 = Some [4, 4]
   \<and> inclusive_scan_local_allocation 2 4 = Some (layout_of (Allocation [0, 0 :: nat] Empty_allocation))
   \<and> hierarchical_inclusive_scan 2 0 4 (\<lambda>i g. Allocation [0, 0] Empty_allocation)
        (\<lambda>i k. 0) ([1, 2, 3, 4, 5, 6, 7, 8], [[0, 0, 0, 0], [0, 0, 0, 0]]) first_nonzero
      = Some ([1, 1, 3, 3, 5, 5, 7, 7], [[3, 3, 3, 3], [3, 0, 0, 0]])
   \<and> naive_inclusive_scan first_nonzero [1, 2, 3, 4, 5, 6, 7, 8] = [1, 1, 1, 1, 1, 1, 1, 1]"
proof -
  have "associative first_nonzero"
    by (simp add: associative_def first_nonzero_def)
  moreover have "\<forall>a. first_nonzero 0 a = a \<and> first_nonzero a 0 = a"
    by (simp add: first_nonzero_def)
  moreover have "hierarchical_inclusive_scan_allocate 4 8 = Some [4, 4]"
    by (simp add: hierarchical_inclusive_scan_allocate_def
        hierarchical_inclusive_scan_allocate_loop.simps div_ceil_def ceil_def)
  moreover have "inclusive_scan_local_allocation 2 4
      = Some (layout_of (Allocation [0, 0 :: nat] Empty_allocation))"
    by (simp add: inclusive_scan_local_allocation.simps div_ceil_def)
  moreover have "hierarchical_inclusive_scan 2 0 4 (\<lambda>i g. Allocation [0, 0] Empty_allocation)
        (\<lambda>i k. 0) ([1, 2, 3, 4, 5, 6, 7, 8], [[0, 0, 0, 0], [0, 0, 0, 0]]) first_nonzero
      = Some ([1, 1, 3, 3, 5, 5, 7, 7], [[3, 3, 3, 3], [3, 0, 0, 0]])"
    by code_simp
  moreover have "naive_inclusive_scan first_nonzero [1, 2, 3, 4, 5, 6, 7, 8]
      = [1, 1, 1, 1, 1, 1, 1, 1]"
    by (simp add: first_nonzero_def)
  ultimately show ?thesis by blast
qed

text \<open>
  C9. With the chain of the allocation, every launch of the scan runs to its end without
  an access outside a buffer or a local memory (an access outside would leave no
  result), for any operator; every buffer of the scan has a multiple of the
  granularity as its size, so that \<open>div_ceil\<close> of it, the number of groups of the
  reduction and one more than that of the expansion, is the exact quotient.
\<close>

theorem hierarchical_inclusive_scan_in_bounds:
  assumes "0 < warp_size" and "local_size mod warp_size = 0"
    and "\<And>i g. inclusive_scan_local_allocation warp_size granularity = Some (layout_of (lm i g))"
    and "2 \<le> granularity" and "length in_out mod granularity = 0"
    and "hierarchical_inclusive_scan_allocate granularity (length in_out) = Some (map length ibufs)"
  shows "(\<exists>in_out' ibufs'.
        hierarchical_inclusive_scan warp_size zero granularity lm discarded (in_out, ibufs) op
          = Some (in_out', ibufs')
        \<and> length in_out' = length in_out \<and> map length ibufs' = map length ibufs)
    \<and> (\<forall>b \<in> set (in_out # ibufs).
          length b mod granularity = 0
          \<and> div_ceil (length b) granularity = length b div granularity)"
proof -
  have "lm_fits warp_size granularity (lm i g)" for i g
    by (rule layout_fits [OF assms(3)])
  from hierarchical_scan_result [where lm = lm and zero = zero and op = op and junk = discarded,
      OF assms(1,2) this assms(4,5,6)]
  have run: "\<exists>in_out' ibufs'.
        hierarchical_inclusive_scan warp_size zero granularity lm discarded (in_out, ibufs) op
          = Some (in_out', ibufs')
        \<and> length in_out' = length in_out \<and> map length ibufs' = map length ibufs"
    by blast
  have G: "0 < granularity" using assms(4) by simp
  have multiple: "length b mod granularity = 0" if "b \<in> set (in_out # ibufs)" for b
  proof (cases "b = in_out")
    case True
    then show ?thesis using assms(5) by simp
  next
    case False
    then have "length b \<in> set (map length ibufs)" using that by simp
    then show ?thesis by (rule allocate_sizes_multiple [OF assms(4,6)])
  qed
  have "\<forall>b \<in> set (in_out # ibufs).
      length b mod granularity = 0
      \<and> div_ceil (length b) granularity = length b div granularity"
  proof (intro ballI conjI)
    fix b assume b: "b \<in> set (in_out # ibufs)"
    show "length b mod granularity = 0" by (rule multiple [OF b])
    then show "div_ceil (length b) granularity = length b div granularity"
      by (rule div_ceil_exact [OF G])
  qed
  then show ?thesis by (intro conjI run)
qed

theorem hierarchical_inclusive_scan_in_bounds_witness:
  "hierarchical_inclusive_scan 2 0 4 (\<lambda>i g. Allocation [7, 7] Empty_allocation)
      (\<lambda>i k. 5) ([9, 1, 8, 2, 7, 3, 6, 4 :: nat], [[5, 5, 5, 5], [5, 5, 5, 5]]) (-)
    = Some ([9, 8, 0, 0, 7, 4, 2, 0], [[0, 0, 5, 0], [0, 5, 5, 5]])
   \<and> hierarchical_inclusive_scan_allocate 4 8 = Some [4, 4]"
proof -
  have alloc: "hierarchical_inclusive_scan_allocate 4 8 = Some [4, 4]"
    by (simp add: hierarchical_inclusive_scan_allocate_def
        hierarchical_inclusive_scan_allocate_loop.simps div_ceil_def ceil_def)
  have "(\<exists>in_out' ibufs'.
        hierarchical_inclusive_scan 2 0 4 (\<lambda>i g. Allocation [7, 7] Empty_allocation)
          (\<lambda>i k. 5) ([9, 1, 8, 2, 7, 3, 6, 4 :: nat], [[5, 5, 5, 5], [5, 5, 5, 5]]) (-)
          = Some (in_out', ibufs')
        \<and> length in_out' = length [9, 1, 8, 2, 7, 3, 6, 4 :: nat]
        \<and> map length ibufs' = map length [[5, 5, 5, 5], [5, 5, 5, 5 :: nat]])
    \<and> (\<forall>b \<in> set ([9, 1, 8, 2, 7, 3, 6, 4 :: nat] # [[5, 5, 5, 5], [5, 5, 5, 5]]).
          length b mod 4 = 0 \<and> div_ceil (length b) 4 = length b div 4)"
  proof (rule hierarchical_inclusive_scan_in_bounds)
    show "(0::nat) < 2" by simp
    show "local_size mod 2 = 0" by (simp add: local_size_def)
    show "inclusive_scan_local_allocation 2 4
        = Some (layout_of (Allocation [7, 7 :: nat] Empty_allocation))" for i g :: nat
      by (simp add: inclusive_scan_local_allocation.simps div_ceil_def)
    show "(2::nat) \<le> 4" by simp
    show "length [9, 1, 8, 2, 7, 3, 6, 4 :: nat] mod 4 = 0" by simp
    have "length [9, 1, 8, 2, 7, 3, 6, 4 :: nat] = 8"
      "map length [[5, 5, 5, 5], [5, 5, 5, 5 :: nat]] = [4, 4]" by simp_all
    then show "hierarchical_inclusive_scan_allocate 4 (length [9, 1, 8, 2, 7, 3, 6, 4 :: nat])
        = Some (map length [[5, 5, 5, 5], [5, 5, 5, 5 :: nat]])"
      by (simp only: alloc)
  qed
  moreover have "hierarchical_inclusive_scan 2 0 4 (\<lambda>i g. Allocation [7, 7] Empty_allocation)
      (\<lambda>i k. 5) ([9, 1, 8, 2, 7, 3, 6, 4 :: nat], [[5, 5, 5, 5], [5, 5, 5, 5]]) (-)
    = Some ([9, 8, 0, 0, 7, 4, 2, 0], [[0, 0, 5, 0], [0, 5, 5, 5]])"
    by code_simp
  ultimately show ?thesis using alloc by blast
qed

lemma allocate_single_block:
  assumes "2 \<le> G"
  shows "hierarchical_inclusive_scan_allocate G G = Some [G]"
proof -
  have G: "0 < G" "1 < G" using assms by simp_all
  have dc: "div_ceil G G = Suc 0" using div_ceil_mult [OF G(1), of 1] by simp
  have c: "ceil (Suc 0) G = G" by (simp add: ceil_def div_ceil_one [OF G(1)])
  have "hierarchical_inclusive_scan_allocate_loop G G []
      = hierarchical_inclusive_scan_allocate_loop G (Suc 0) [G]"
    using G(2) by (subst hierarchical_inclusive_scan_allocate_loop.simps) (simp add: dc c)
  also have "\<dots> = Some [G]"
    by (subst hierarchical_inclusive_scan_allocate_loop.simps) simp
  finally show ?thesis by (simp add: hierarchical_inclusive_scan_allocate_def)
qed

text \<open>
  C6 as stated fails: for a single block the allocation returns one intermediate
  buffer, not none. With no intermediate buffer the scan would launch no kernel and
  leave the block as it is.
\<close>

theorem single_block_chain_counterexample:
  "hierarchical_inclusive_scan_allocate 4 4 = Some [4]
   \<and> hierarchical_inclusive_scan_allocate 4 4 \<noteq> Some []
   \<and> hierarchical_inclusive_scan 2 0 4 (\<lambda>i g. Allocation [0, 0] Empty_allocation)
        (\<lambda>i k. 0) ([1, 2, 3, 4 :: nat], []) (+) = Some ([1, 2, 3, 4], [])"
proof -
  have "hierarchical_inclusive_scan_allocate 4 4 = Some [4]"
    by (simp add: hierarchical_inclusive_scan_allocate_def
        hierarchical_inclusive_scan_allocate_loop.simps div_ceil_def ceil_def)
  moreover have "hierarchical_inclusive_scan 2 0 4 (\<lambda>i g. Allocation [0, 0] Empty_allocation)
        (\<lambda>i k. 0) ([1, 2, 3, 4 :: nat], []) (+) = Some ([1, 2, 3, 4], [])"
    by (simp add: hierarchical_inclusive_scan_def reduction_launches_def expansion_launches_def)
  ultimately show ?thesis by simp
qed

text \<open>
  C6, as amended. For an in/out buffer of exactly one block, of a granularity of at
  least 1: when the granularity is 2 or more the allocation returns a chain of one
  intermediate buffer of \<open>granularity\<close> elements, and with it the scan launches the
  reduction kernel once, for level 0, and the expansion kernel not at all, and leaves
  the naive inclusive scan of the block in the in/out buffer, for an associative and
  commutative operator; when the granularity is 1 the allocation returns the empty
  chain, the scan launches no kernel and returns the buffer as it is, and the single
  element is its own inclusive scan.
\<close>

theorem single_block_scan:
  assumes "0 < warp_size" and "local_size mod warp_size = 0"
    and "\<And>i g. inclusive_scan_local_allocation warp_size granularity = Some (layout_of (lm i g))"
    and "0 < granularity" and "length in_out = granularity" and "length b = granularity"
    and "associative op" and "commutative op"
  shows "if granularity = 1
    then hierarchical_inclusive_scan_allocate granularity (length in_out) = Some []
      \<and> reduction_launches (in_out, []) = []
      \<and> expansion_launches (in_out, []) = []
      \<and> hierarchical_inclusive_scan warp_size zero granularity lm discarded (in_out, []) op
          = Some (in_out, [])
      \<and> naive_inclusive_scan op in_out = in_out
    else hierarchical_inclusive_scan_allocate granularity (length in_out) = Some [granularity]
      \<and> reduction_launches (in_out, [b]) = [0]
      \<and> expansion_launches (in_out, [b]) = []
      \<and> (\<exists>b'. hierarchical_inclusive_scan warp_size zero granularity lm discarded
                (in_out, [b]) op
            = Some (naive_inclusive_scan op in_out, [b']))"
proof (cases "granularity = 1")
  case True
  have chain: "hierarchical_inclusive_scan_allocate granularity (length in_out) = Some []"
    using assms(5) True
    by (simp add: hierarchical_inclusive_scan_allocate_def
        hierarchical_inclusive_scan_allocate_loop.simps)
  obtain x where x: "in_out = [x]"
    using assms(5) True by (cases in_out) simp_all
  have "hierarchical_inclusive_scan warp_size zero granularity lm discarded (in_out, []) op
      = Some (in_out, [])"
    by (simp add: hierarchical_inclusive_scan_def reduction_launches_def expansion_launches_def)
  then show ?thesis
    using True chain x by (simp add: reduction_launches_def expansion_launches_def)
next
  case False
  then have G: "2 \<le> granularity" using assms(4) by simp
  have chain: "hierarchical_inclusive_scan_allocate granularity (length in_out)
      = Some (map length [b])"
    using allocate_single_block [OF G] assms(5,6) by simp
  have fits: "lm_fits warp_size granularity (lm i g)" for i g
    by (rule layout_fits [OF assms(3)])
  have "length in_out mod granularity = 0" using assms(5) by simp
  from hierarchical_scan_result [where lm = lm and zero = zero and op = op and junk = discarded,
      OF assms(1,2) fits G this chain]
  obtain in_out' ibufs' where run:
    "hierarchical_inclusive_scan warp_size zero granularity lm discarded (in_out, [b]) op
        = Some (in_out', ibufs')"
    and len: "map length ibufs' = map length [b]"
    and vals: "in_out' = naive_inclusive_scan op in_out"
    using assms(7,8) by blast
  obtain b' where "ibufs' = [b']" using len by (cases ibufs') auto
  then have "\<exists>b'. hierarchical_inclusive_scan warp_size zero granularity lm discarded
        (in_out, [b]) op = Some (naive_inclusive_scan op in_out, [b'])"
    using run vals by simp
  then show ?thesis
    using False chain assms(6) by (simp add: reduction_launches_def expansion_launches_def)
qed

theorem single_block_scan_witness:
  "hierarchical_inclusive_scan_allocate 4 (length [1, 2, 3, 4 :: nat]) = Some [4]
   \<and> reduction_launches ([1, 2, 3, 4 :: nat], [[9, 9, 9, 9 :: nat]]) = [0]
   \<and> expansion_launches ([1, 2, 3, 4 :: nat], [[9, 9, 9, 9 :: nat]]) = []
   \<and> hierarchical_inclusive_scan 2 0 4 (\<lambda>i g. Allocation [7, 7] Empty_allocation)
        (\<lambda>i k. 9) ([1, 2, 3, 4 :: nat], [[9, 9, 9, 9]]) (+) = Some ([1, 3, 6, 10], [[10, 9, 9, 9]])
   \<and> hierarchical_inclusive_scan_allocate 1 (length [5 :: nat]) = Some []
   \<and> hierarchical_inclusive_scan 2 0 1 (\<lambda>i g. Empty_allocation)
        (\<lambda>i k. 9) ([5 :: nat], []) (+) = Some ([5], [])"
proof -
  have "if (4::nat) = 1
    then hierarchical_inclusive_scan_allocate 4 (length [1, 2, 3, 4 :: nat]) = Some []
      \<and> reduction_launches ([1, 2, 3, 4 :: nat], []) = []
      \<and> expansion_launches ([1, 2, 3, 4 :: nat], []) = []
      \<and> hierarchical_inclusive_scan 2 0 4 (\<lambda>i g. Allocation [7, 7] Empty_allocation)
            (\<lambda>i k. 9) ([1, 2, 3, 4 :: nat], []) (+)
          = Some ([1, 2, 3, 4], [])
      \<and> naive_inclusive_scan (+) [1, 2, 3, 4 :: nat] = [1, 2, 3, 4]
    else hierarchical_inclusive_scan_allocate 4 (length [1, 2, 3, 4 :: nat]) = Some [4]
      \<and> reduction_launches ([1, 2, 3, 4 :: nat], [[9, 9, 9, 9 :: nat]]) = [0]
      \<and> expansion_launches ([1, 2, 3, 4 :: nat], [[9, 9, 9, 9 :: nat]]) = []
      \<and> (\<exists>b'. hierarchical_inclusive_scan 2 0 4 (\<lambda>i g. Allocation [7, 7] Empty_allocation)
                (\<lambda>i k. 9) ([1, 2, 3, 4 :: nat], [[9, 9, 9, 9]]) (+)
            = Some (naive_inclusive_scan (+) [1, 2, 3, 4], [b']))"
  proof (rule single_block_scan)
    show "(0::nat) < 2" by simp
    show "local_size mod 2 = 0" by (simp add: local_size_def)
    show "inclusive_scan_local_allocation 2 4
        = Some (layout_of (Allocation [7, 7 :: nat] Empty_allocation))" for i g :: nat
      by (simp add: inclusive_scan_local_allocation.simps div_ceil_def)
    show "(0::nat) < 4" by simp
    show "length [1, 2, 3, 4 :: nat] = 4" by simp
    show "length [9, 9, 9, 9 :: nat] = 4" by simp
    show "associative ((+) :: nat \<Rightarrow> nat \<Rightarrow> nat)" by (simp add: associative_def)
    show "commutative ((+) :: nat \<Rightarrow> nat \<Rightarrow> nat)" by (simp add: commutative_def)
  qed
  then have four: "hierarchical_inclusive_scan_allocate 4 (length [1, 2, 3, 4 :: nat]) = Some [4]
      \<and> reduction_launches ([1, 2, 3, 4 :: nat], [[9, 9, 9, 9 :: nat]]) = [0]
      \<and> expansion_launches ([1, 2, 3, 4 :: nat], [[9, 9, 9, 9 :: nat]]) = []"
    by simp
  have "if (1::nat) = 1
    then hierarchical_inclusive_scan_allocate 1 (length [5 :: nat]) = Some []
      \<and> reduction_launches ([5 :: nat], []) = []
      \<and> expansion_launches ([5 :: nat], []) = []
      \<and> hierarchical_inclusive_scan 2 0 1 (\<lambda>i g. Empty_allocation)
            (\<lambda>i k. 9) ([5 :: nat], []) (+)
          = Some ([5], [])
      \<and> naive_inclusive_scan (+) [5 :: nat] = [5]
    else hierarchical_inclusive_scan_allocate 1 (length [5 :: nat]) = Some [1]
      \<and> reduction_launches ([5 :: nat], [[9 :: nat]]) = [0]
      \<and> expansion_launches ([5 :: nat], [[9 :: nat]]) = []
      \<and> (\<exists>b'. hierarchical_inclusive_scan 2 0 1 (\<lambda>i g. Empty_allocation)
                (\<lambda>i k. 9) ([5 :: nat], [[9]]) (+)
            = Some (naive_inclusive_scan (+) [5], [b']))"
  proof (rule single_block_scan)
    show "(0::nat) < 2" by simp
    show "local_size mod 2 = 0" by (simp add: local_size_def)
    show "inclusive_scan_local_allocation 2 1
        = Some (layout_of (Empty_allocation :: nat local_allocation))" for i g :: nat
      by (simp add: inclusive_scan_local_allocation.simps)
    show "(0::nat) < 1" by simp
    show "length [5 :: nat] = 1" by simp
    show "length [9 :: nat] = 1" by simp
    show "associative ((+) :: nat \<Rightarrow> nat \<Rightarrow> nat)" by (simp add: associative_def)
    show "commutative ((+) :: nat \<Rightarrow> nat \<Rightarrow> nat)" by (simp add: commutative_def)
  qed
  then have one: "hierarchical_inclusive_scan_allocate 1 (length [5 :: nat]) = Some []
      \<and> hierarchical_inclusive_scan 2 0 1 (\<lambda>i g. Empty_allocation)
            (\<lambda>i k. 9) ([5 :: nat], []) (+) = Some ([5], [])"
    by simp
  have "hierarchical_inclusive_scan 2 0 4 (\<lambda>i g. Allocation [7, 7] Empty_allocation)
        (\<lambda>i k. 9) ([1, 2, 3, 4 :: nat], [[9, 9, 9, 9]]) (+) = Some ([1, 3, 6, 10], [[10, 9, 9, 9]])"
    by code_simp
  with four one show ?thesis by blast
qed

end
